theory Spec2Isabelle
  imports Main "HOL-Library.Word"
begin

section \<open>The SSZ encoder of \<^verbatim>\<open>serialize.ts\<close>\<close>

text \<open>
  The source file exports \<^verbatim>\<open>serialize\<close> and \<^verbatim>\<open>_serialize\<close> and keeps five private
  helpers. Isabelle names cannot start with an underscore, so \<^verbatim>\<open>_serializeUint\<close>,
  \<^verbatim>\<open>_serializeBool\<close>, \<^verbatim>\<open>_serializeByteArray\<close>, \<^verbatim>\<open>_serializeArray\<close> and
  \<^verbatim>\<open>_serializeObject\<close> appear without it, and \<^verbatim>\<open>_serialize\<close> (documented in the source
  as "Low level serialize") is \<open>serialize_low\<close>.

  The output \<^verbatim>\<open>Buffer\<close> is mutated in place by the source. The model passes it
  explicitly: a run that returns gives the written buffer and the new index, a run that
  throws gives the error and the buffer as it stands at the throw.
\<close>

subsection \<open>Bytes, errors, results\<close>

type_synonym byte = "8 word"
type_synonym buffer = "byte list"

text \<open>
  \<open>BadType\<close> and \<open>InvalidValue\<close> are the two error kinds of the codec. \<open>AssertionError\<close>
  is what an \<^verbatim>\<open>assert\<close> of bn.js throws, \<open>RangeError\<close> what a bounds or value check of
  Node's \<^verbatim>\<open>Buffer\<close> throws. \<open>TypeError\<close> stands for a value whose shape does not fit the
  descriptor it is serialized at, a record without a declared field among them: the
  TypeScript signatures exclude it (the dispatcher casts, \<^verbatim>\<open>value as Bool\<close>), and
  validation rejects it before the dispatcher runs. No theorem below is about such a
  value.
\<close>

datatype error = BadType | InvalidValue | AssertionError | RangeError | TypeError

type_synonym result = "(error \<times> buffer) + (buffer \<times> nat)"

subsection \<open>Type descriptors and values\<close>

text \<open>
  Modelled from the spec: the declarations of \<^verbatim>\<open>./types\<close> (\<^verbatim>\<open>FullSSZType\<close>, \<^verbatim>\<open>Type\<close>,
  \<^verbatim>\<open>UintType\<close>, \<^verbatim>\<open>Uint\<close>, ...) are not part of the source at hand. A \<^verbatim>\<open>Uint\<close> is a
  native number or a bn.js big number: \<open>Number i\<close> is the native number holding the
  integer \<open>i\<close>, \<open>BN i\<close> the big number holding it, and \<open>Infinity\<close> the native positive
  infinity. The constructors of a descriptor follow the
  table of type descriptors: \<open>Type_uint byteLength useNumber offset\<close>,
  \<open>Type_byteVector length\<close>, \<open>Type_byteList maxLength\<close>, \<open>Type_vector elementType length\<close>,
  \<open>Type_list elementType maxLength\<close>, \<open>Type_container fields\<close>. An absent maximum
  (\<open>None\<close>) is the unbounded length of the shorthand forms. The bias \<open>offset\<close> is what
  the source hands to \<^verbatim>\<open>new BN\<close>: a native number or a big number, as a uint value is.
\<close>

datatype uint = Number int | BN int | Infinity

datatype ssz_type =
    Type_bool
  | Type_uint nat bool uint
  | Type_byteVector nat
  | Type_byteList "nat option"
  | Type_vector ssz_type nat
  | Type_list ssz_type "nat option"
  | Type_container "(string \<times> ssz_type) list"

text \<open>
  Modelled from the spec: the value types of \<^verbatim>\<open>./types\<close>. A container value is a record,
  looked up by field name.
\<close>

datatype ssz_value =
    VBool bool
  | VUint uint
  | VBytes buffer
  | VArray "ssz_value list"
  | VObject "(string \<times> ssz_value) list"

text \<open>Modelled from the spec: the constant of \<^verbatim>\<open>./constants\<close>, the width of an offset slot.\<close>

definition BYTES_PER_LENGTH_PREFIX :: nat where
  "BYTES_PER_LENGTH_PREFIX = 4"

subsection \<open>The size oracle\<close>

text \<open>
  Modelled from the spec: \<^verbatim>\<open>isVariableSizeType\<close> of \<^verbatim>\<open>./util/types\<close>, by the column
  "Fixed-size?" of the descriptor table.
\<close>

fun isVariableSizeType :: "ssz_type \<Rightarrow> bool" where
  "isVariableSizeType Type_bool = False"
| "isVariableSizeType (Type_uint n useNumber off) = False"
| "isVariableSizeType (Type_byteVector L) = False"
| "isVariableSizeType (Type_byteList M) = True"
| "isVariableSizeType (Type_vector T L) = isVariableSizeType T"
| "isVariableSizeType (Type_list T M) = True"
| "isVariableSizeType (Type_container fields) =
     list_ex (\<lambda>f. isVariableSizeType (snd f)) fields"

text \<open>Adding up sizes that may each have failed; the first failure is the result.\<close>

fun sum_results :: "(error + nat) list \<Rightarrow> error + nat" where
  "sum_results [] = Inr 0"
| "sum_results (r # rs) =
     (case r of
        Inl e \<Rightarrow> Inl e
      | Inr a \<Rightarrow> (case sum_results rs of Inl e \<Rightarrow> Inl e | Inr b \<Rightarrow> Inr (a + b)))"

text \<open>
  Modelled from the spec: \<^verbatim>\<open>fixedSize\<close> of \<^verbatim>\<open>./size\<close>. The spec defines it on fixed-size
  descriptors only; on a byte list or a list the model fails with \<open>BadType\<close>.
\<close>

fun fixedSize :: "ssz_type \<Rightarrow> error + nat" where
  "fixedSize Type_bool = Inr 1"
| "fixedSize (Type_uint n useNumber off) = Inr n"
| "fixedSize (Type_byteVector L) = Inr L"
| "fixedSize (Type_vector T L) =
     (case fixedSize T of Inl e \<Rightarrow> Inl e | Inr k \<Rightarrow> Inr (L * k))"
| "fixedSize (Type_container fields) = sum_results (map (\<lambda>f. fixedSize (snd f)) fields)"
| "fixedSize (Type_byteList M) = Inl BadType"
| "fixedSize (Type_list T M) = Inl BadType"

text \<open>
  Modelled from the spec: \<^verbatim>\<open>size\<close> of \<^verbatim>\<open>./size\<close> (the name \<open>size\<close> is taken in HOL).
  A fixed-size descriptor gives its fixed size; a byte list the length of the value; an
  array of variable-size elements one offset slot per element plus the elements; a
  list of fixed-size elements the element size times the length; a container the sum
  over its fields. The spec gives the array rule for lists; a vector of variable-size
  elements has the same layout and takes the same rule. Where the value lacks the shape
  that has to be measured the result is \<open>InvalidValue\<close>.
\<close>

fun size_ssz :: "ssz_value \<Rightarrow> ssz_type \<Rightarrow> error + nat" where
  "size_ssz v (Type_byteList M) =
     (case v of VBytes bs \<Rightarrow> Inr (length bs) | _ \<Rightarrow> Inl InvalidValue)"
| "size_ssz v (Type_list T M) =
     (case v of
        VArray vs \<Rightarrow>
          if isVariableSizeType T
          then (case sum_results (map (\<lambda>x. size_ssz x T) vs) of
                  Inl e \<Rightarrow> Inl e
                | Inr s \<Rightarrow> Inr (length vs * BYTES_PER_LENGTH_PREFIX + s))
          else (case fixedSize T of Inl e \<Rightarrow> Inl e | Inr k \<Rightarrow> Inr (length vs * k))
      | _ \<Rightarrow> Inl InvalidValue)"
| "size_ssz v (Type_vector T L) =
     (if isVariableSizeType T
      then (case v of
              VArray vs \<Rightarrow>
                (case sum_results (map (\<lambda>x. size_ssz x T) vs) of
                   Inl e \<Rightarrow> Inl e
                 | Inr s \<Rightarrow> Inr (length vs * BYTES_PER_LENGTH_PREFIX + s))
            | _ \<Rightarrow> Inl InvalidValue)
      else fixedSize (Type_vector T L))"
| "size_ssz v (Type_container fields) =
     (if isVariableSizeType (Type_container fields)
      then (case v of
              VObject fvs \<Rightarrow>
                sum_results (map (\<lambda>f.
                  if isVariableSizeType (snd f)
                  then (case map_of fvs (fst f) of
                          None \<Rightarrow> Inl InvalidValue
                        | Some fv \<Rightarrow>
                            (case size_ssz fv (snd f) of
                               Inl e \<Rightarrow> Inl e
                             | Inr s \<Rightarrow> Inr (BYTES_PER_LENGTH_PREFIX + s)))
                  else fixedSize (snd f)) fields)
            | _ \<Rightarrow> Inl InvalidValue)
      else fixedSize (Type_container fields))"
| "size_ssz v T = fixedSize T"

subsection \<open>The value validator\<close>

text \<open>
  Modelled from the spec: \<^verbatim>\<open>assertValidValue\<close> of \<^verbatim>\<open>./assertValidValue\<close>. \<open>valid_value\<close>
  is the list of checks of the validator, one equation per descriptor;
  \<open>assertValidValue\<close> throws \<open>InvalidValue\<close> when a check fails (the diagnostic path
  and reason the error carries are left out).
\<close>

fun valid_value :: "ssz_value \<Rightarrow> ssz_type \<Rightarrow> bool" where
  "valid_value (VBool b) Type_bool = True"
| "valid_value (VUint (Number i)) (Type_uint n useNumber off) = (0 \<le> i \<and> i < 2 ^ (8 * n))"
| "valid_value (VUint (BN i)) (Type_uint n useNumber off) = (0 \<le> i \<and> i < 2 ^ (8 * n))"
| "valid_value (VUint Infinity) (Type_uint n useNumber off) = (6 < n \<and> useNumber)"
| "valid_value (VBytes bs) (Type_byteVector L) = (length bs = L)"
| "valid_value (VBytes bs) (Type_byteList M) =
     (case M of None \<Rightarrow> True | Some m \<Rightarrow> length bs \<le> m)"
| "valid_value (VArray vs) (Type_vector T L) =
     (length vs = L \<and> list_all (\<lambda>v. valid_value v T) vs)"
| "valid_value (VArray vs) (Type_list T M) =
     ((case M of None \<Rightarrow> True | Some m \<Rightarrow> length vs \<le> m)
      \<and> list_all (\<lambda>v. valid_value v T) vs)"
| "valid_value (VObject fvs) (Type_container fields) =
     (distinct (map fst fvs) \<and> set (map fst fvs) = set (map fst fields)
      \<and> list_all (\<lambda>f. case map_of fvs (fst f) of
                          None \<Rightarrow> False
                        | Some fv \<Rightarrow> valid_value fv (snd f)) fields)"
| "valid_value v T = False"

definition assertValidValue :: "ssz_value \<Rightarrow> ssz_type \<Rightarrow> error + unit" where
  "assertValidValue v T = (if valid_value v T then Inr () else Inl InvalidValue)"

text \<open>
  Modelled from the spec: the constraints the descriptor table and the normalizer put
  on a descriptor: a supported uint width, a positive vector length, unique field
  names.
\<close>

fun well_formed :: "ssz_type \<Rightarrow> bool" where
  "well_formed (Type_uint n useNumber off) = (n \<in> set [1, 2, 4, 8, 16, 32])"
| "well_formed (Type_vector T L) = (0 < L \<and> well_formed T)"
| "well_formed (Type_list T M) = well_formed T"
| "well_formed (Type_container fields) =
     (distinct (map fst fields) \<and> list_all (\<lambda>f. well_formed (snd f)) fields)"
| "well_formed T = True"

subsection \<open>The type normalizer\<close>

text \<open>
  Modelled from the spec: \<^verbatim>\<open>parseType\<close> of \<^verbatim>\<open>./util/types\<close> and the shorthand it
  accepts. \<open>Simple_name\<close> is a shorthand string (\<^verbatim>\<open>"bool"\<close>, \<^verbatim>\<open>"uintN"\<close>, \<^verbatim>\<open>"bytes"\<close>,
  \<^verbatim>\<open>"bytesN"\<close>), \<open>Simple_list\<close> a sequence of one type element, \<open>Simple_vector\<close> a
  sequence of an element type and a length, \<open>Simple_container\<close> a record of a name and
  its fields. The spec names no shorthand that sets \<^verbatim>\<open>useNumber\<close> or a bias: the
  normalized uint has \<^verbatim>\<open>useNumber\<close> unset and the native number 0 as \<^verbatim>\<open>offset\<close>.
\<close>

datatype any_type =
    Simple_name string
  | Simple_list any_type
  | Simple_vector any_type int
  | Simple_container string "(string \<times> any_type) list"

definition digit_value :: "char \<Rightarrow> nat option" where
  "digit_value c =
     map_of [(CHR ''0'', 0), (CHR ''1'', 1), (CHR ''2'', 2), (CHR ''3'', 3), (CHR ''4'', 4),
             (CHR ''5'', 5), (CHR ''6'', 6), (CHR ''7'', 7), (CHR ''8'', 8), (CHR ''9'', 9)] c"

fun parse_digits :: "nat \<Rightarrow> string \<Rightarrow> nat option" where
  "parse_digits acc [] = Some acc"
| "parse_digits acc (c # cs) =
     (case digit_value c of None \<Rightarrow> None | Some d \<Rightarrow> parse_digits (10 * acc + d) cs)"

definition parse_decimal :: "string \<Rightarrow> nat option" where
  "parse_decimal s = (if s = [] then None else parse_digits 0 s)"

fun collect_results :: "(error + 'a) list \<Rightarrow> error + 'a list" where
  "collect_results [] = Inr []"
| "collect_results (r # rs) =
     (case r of
        Inl e \<Rightarrow> Inl e
      | Inr a \<Rightarrow> (case collect_results rs of Inl e \<Rightarrow> Inl e | Inr as \<Rightarrow> Inr (a # as)))"

fun parseType :: "any_type \<Rightarrow> error + ssz_type" where
  "parseType (Simple_name s) =
     (if s = ''bool'' then Inr Type_bool
      else if s = ''bytes'' then Inr (Type_byteList None)
      else if take 5 s = ''bytes'' then
        (case parse_decimal (drop 5 s) of
           None \<Rightarrow> Inl BadType
         | Some N \<Rightarrow> Inr (Type_byteVector N))
      else if take 4 s = ''uint'' then
        (case parse_decimal (drop 4 s) of
           None \<Rightarrow> Inl BadType
         | Some N \<Rightarrow>
             if N \<in> set [8, 16, 32, 64, 128, 256] then Inr (Type_uint (N div 8) False (Number 0))
             else Inl BadType)
      else Inl BadType)"
| "parseType (Simple_list T) =
     (case parseType T of Inl e \<Rightarrow> Inl e | Inr T' \<Rightarrow> Inr (Type_list T' None))"
| "parseType (Simple_vector T len) =
     (if len \<le> 0 then Inl BadType
      else (case parseType T of
              Inl e \<Rightarrow> Inl e
            | Inr T' \<Rightarrow> Inr (Type_vector T' (nat len))))"
| "parseType (Simple_container name fields) =
     (if \<not> distinct (map fst fields) then Inl BadType
      else (case collect_results
                   (map (\<lambda>f. case parseType (snd f) of
                                 Inl e \<Rightarrow> Inl e
                               | Inr T' \<Rightarrow> Inr (fst f, T')) fields) of
              Inl e \<Rightarrow> Inl e
            | Inr fields' \<Rightarrow> Inr (Type_container fields')))"

subsection \<open>Node's Buffer and bn.js\<close>

text \<open>
  The library calls of the source, as the libraries define them.
  \<^verbatim>\<open>Buffer.alloc(n, fill)\<close> is \<open>n\<close> bytes \<open>fill\<close> (the limit a platform puts on the length
  of a buffer, and its memory, are not part of the model: an allocation gives its
  buffer). \<^verbatim>\<open>source.copy(target, targetStart)\<close>
  overwrites \<open>target\<close> from \<open>targetStart\<close> on with the bytes of \<open>source\<close>, as many as fit,
  and never throws for a start at or beyond the end. \<^verbatim>\<open>writeUInt8\<close> and \<^verbatim>\<open>writeUIntLE\<close>
  throw a range error when the value does not fit the width or the bytes do not fit
  the buffer.
\<close>

definition alloc :: "nat \<Rightarrow> byte \<Rightarrow> buffer" where
  "alloc n fill = replicate n fill"

definition copy :: "buffer \<Rightarrow> buffer \<Rightarrow> nat \<Rightarrow> buffer" where
  "copy source target targetStart =
     (if length target \<le> targetStart then target
      else take targetStart target
           @ take (length target - targetStart) source
           @ drop (targetStart + length source) target)"

fun le_bytes :: "nat \<Rightarrow> int \<Rightarrow> byte list" where
  "le_bytes 0 m = []"
| "le_bytes (Suc k) m = word_of_int (m mod 256) # le_bytes k (m div 256)"

definition writeUInt8 :: "buffer \<Rightarrow> int \<Rightarrow> nat \<Rightarrow> error + buffer" where
  "writeUInt8 buf v offset =
     (if v < 0 \<or> 255 < v \<or> length buf < offset + 1 then Inl RangeError
      else Inr (buf[offset := word_of_int v]))"

definition writeUIntLE :: "buffer \<Rightarrow> int \<Rightarrow> nat \<Rightarrow> nat \<Rightarrow> error + buffer" where
  "writeUIntLE buf v offset byteLength =
     (if v < 0 \<or> 2 ^ (8 * byteLength) \<le> v \<or> length buf < offset + byteLength
      then Inl RangeError
      else Inr (take offset buf @ le_bytes byteLength v @ drop (offset + byteLength) buf))"

text \<open>
  \<^verbatim>\<open>new BN(value)\<close> of a big number is that number. Of a native number it takes the
  sign off and asserts \<^verbatim>\<open>number < 0x20000000000000\<close> on the magnitude: a native number
  whose magnitude is \<open>2^53\<close> or more, the infinity among them, fails the assertion.
  \<^verbatim>\<open>new BN(buffer)\<close> reads the bytes big-endian.
\<close>

fun new_BN :: "uint \<Rightarrow> error + int" where
  "new_BN (BN i) = Inr i"
| "new_BN (Number i) = (if \<bar>i\<bar> < 9007199254740992 then Inr i else Inl AssertionError)"
| "new_BN Infinity = Inl AssertionError"

definition BN_of_buffer :: "buffer \<Rightarrow> int" where
  "BN_of_buffer bs = foldl (\<lambda>acc b. acc * 256 + uint b) 0 bs"

text \<open>\<^verbatim>\<open>byteLength()\<close> of bn.js: the number of bytes of the magnitude, 0 for zero.\<close>

function byteLength_BN :: "int \<Rightarrow> nat" where
  "byteLength_BN m = (if m \<le> 0 then 0 else Suc (byteLength_BN (m div 256)))"
  by pat_completeness auto
termination
  by (relation "measure nat") (auto intro: int_div_less_self)

declare byteLength_BN.simps [simp del]

text \<open>
  \<^verbatim>\<open>toArrayLike(Buffer, "le", length)\<close> of bn.js: the required length is \<open>length\<close>, or
  \<^verbatim>\<open>Math.max(1, byteLength)\<close> when \<open>length\<close> is 0; the call asserts that the number fits
  (\<^verbatim>\<open>byteLength <= reqLength\<close>, "byte array longer than desired length") and writes the
  bytes of the magnitude, least significant first, zero-padded to the required length.
\<close>

definition toArrayLike :: "int \<Rightarrow> nat \<Rightarrow> error + buffer" where
  "toArrayLike x len =
     (let byteLength = byteLength_BN \<bar>x\<bar>;
          reqLength = (if len = 0 then max 1 byteLength else len)
      in if reqLength < byteLength then Inl AssertionError
         else Inr (le_bytes reqLength \<bar>x\<bar>))"

subsection \<open>The serializer\<close>

definition serializeUint :: "uint \<Rightarrow> nat \<Rightarrow> bool \<Rightarrow> uint \<Rightarrow> buffer \<Rightarrow> nat \<Rightarrow> result" where
  "serializeUint v byteLength useNumber off output start =
     (let offset = start + byteLength in
      case (if 6 < byteLength \<and> useNumber \<and> v = Infinity
            then Inr (BN_of_buffer (alloc byteLength 255))
            else (case new_BN v of
                    Inl e \<Rightarrow> Inl e
                  | Inr a \<Rightarrow> (case new_BN off of Inl e \<Rightarrow> Inl e | Inr b \<Rightarrow> Inr (a + b)))) of
        Inl e \<Rightarrow> Inl (e, output)
      | Inr bnValue \<Rightarrow>
          (case toArrayLike bnValue byteLength of
             Inl e \<Rightarrow> Inl (e, output)
           | Inr bytes \<Rightarrow> Inr (copy bytes output start, offset)))"

definition serializeBool :: "bool \<Rightarrow> buffer \<Rightarrow> nat \<Rightarrow> result" where
  "serializeBool v output start =
     (let offset = start + 1 in
      case (if v then writeUInt8 output 1 start else writeUInt8 output 0 start) of
        Inl e \<Rightarrow> Inl (e, output)
      | Inr output' \<Rightarrow> Inr (output', offset))"

definition serializeByteArray :: "buffer \<Rightarrow> ssz_type \<Rightarrow> buffer \<Rightarrow> nat \<Rightarrow> result" where
  "serializeByteArray v type output start =
     (let len = (case type of Type_byteVector L \<Rightarrow> L | _ \<Rightarrow> length v);
          offset = start + len
      in Inr (copy v output start, offset))"

text \<open>The \<^verbatim>\<open>fixedLength\<close> of \<^verbatim>\<open>_serializeObject\<close>: the length of a container's fixed region.\<close>

definition fixedLength :: "(string \<times> ssz_type) list \<Rightarrow> error + nat" where
  "fixedLength fields =
     sum_results (map (\<lambda>f. if isVariableSizeType (snd f) then Inr BYTES_PER_LENGTH_PREFIX
                             else fixedSize (snd f)) fields)"

text \<open>
  The dispatcher and the two aggregate writers call each other. Each \<^verbatim>\<open>for\<close> loop is a
  recursion over the rest of the sequence, its loop variables as arguments:
  \<open>serializeArray_variable\<close> and \<open>serializeArray_fixed\<close> are the two loops of
  \<^verbatim>\<open>_serializeArray\<close>, \<open>serializeObject_loop\<close> the loop of \<^verbatim>\<open>_serializeObject\<close>.
\<close>

function (sequential)
    serialize_low :: "ssz_value \<Rightarrow> ssz_type \<Rightarrow> buffer \<Rightarrow> nat \<Rightarrow> result"
and serializeArray :: "ssz_value list \<Rightarrow> ssz_type \<Rightarrow> buffer \<Rightarrow> nat \<Rightarrow> result"
and serializeArray_variable ::
      "ssz_value list \<Rightarrow> ssz_type \<Rightarrow> buffer \<Rightarrow> nat \<Rightarrow> nat \<Rightarrow> nat \<Rightarrow> result"
and serializeArray_fixed :: "ssz_value list \<Rightarrow> ssz_type \<Rightarrow> buffer \<Rightarrow> nat \<Rightarrow> result"
and serializeObject ::
      "(string \<times> ssz_value) list \<Rightarrow> (string \<times> ssz_type) list \<Rightarrow> buffer \<Rightarrow> nat \<Rightarrow> result"
and serializeObject_loop ::
      "(string \<times> ssz_value) list \<Rightarrow> (string \<times> ssz_type) list \<Rightarrow> buffer \<Rightarrow> nat \<Rightarrow> nat \<Rightarrow> nat
       \<Rightarrow> result"
where
  "serialize_low (VBool b) Type_bool output start = serializeBool b output start"
| "serialize_low (VUint u) (Type_uint n useNumber off) output start =
     serializeUint u n useNumber off output start"
| "serialize_low (VBytes bs) (Type_byteList M) output start =
     serializeByteArray bs (Type_byteList M) output start"
| "serialize_low (VBytes bs) (Type_byteVector L) output start =
     serializeByteArray bs (Type_byteVector L) output start"
| "serialize_low (VArray vs) (Type_list T M) output start = serializeArray vs T output start"
| "serialize_low (VArray vs) (Type_vector T L) output start = serializeArray vs T output start"
| "serialize_low (VObject fvs) (Type_container fields) output start =
     serializeObject fvs fields output start"
| "serialize_low v T output start = Inl (TypeError, output)"
| "serializeArray vs elementType output start =
     (if isVariableSizeType elementType
      then serializeArray_variable vs elementType output start start
             (start + length vs * BYTES_PER_LENGTH_PREFIX)
      else serializeArray_fixed vs elementType output start)"
| "serializeArray_variable [] elementType output start fixedIndex currentOffsetIndex =
     Inr (output, currentOffsetIndex)"
| "serializeArray_variable (v # vs) elementType output start fixedIndex currentOffsetIndex =
     (case serialize_low v elementType output currentOffsetIndex of
        Inl e \<Rightarrow> Inl e
      | Inr (output1, nextOffsetIndex) \<Rightarrow>
          (case writeUIntLE output1 (int currentOffsetIndex - int start) fixedIndex
                  BYTES_PER_LENGTH_PREFIX of
             Inl e \<Rightarrow> Inl (e, output1)
           | Inr output2 \<Rightarrow>
               serializeArray_variable vs elementType output2 start
                 (fixedIndex + BYTES_PER_LENGTH_PREFIX) nextOffsetIndex))"
| "serializeArray_fixed [] elementType output index = Inr (output, index)"
| "serializeArray_fixed (v # vs) elementType output index =
     (case serialize_low v elementType output index of
        Inl e \<Rightarrow> Inl e
      | Inr (output1, index1) \<Rightarrow> serializeArray_fixed vs elementType output1 index1)"
| "serializeObject fvs fields output start =
     (case fixedLength fields of
        Inl e \<Rightarrow> Inl (e, output)
      | Inr fixedLen \<Rightarrow> serializeObject_loop fvs fields output start start (start + fixedLen))"
| "serializeObject_loop fvs [] output start fixedIndex currentOffsetIndex =
     Inr (output, currentOffsetIndex)"
| "serializeObject_loop fvs ((fieldName, fieldType) # fields) output start fixedIndex
       currentOffsetIndex =
     (case map_of fvs fieldName of
        None \<Rightarrow> Inl (TypeError, output)
      | Some fv \<Rightarrow>
          if isVariableSizeType fieldType
          then (case serialize_low fv fieldType output currentOffsetIndex of
                  Inl e \<Rightarrow> Inl e
                | Inr (output1, nextOffsetIndex) \<Rightarrow>
                    (case writeUIntLE output1 (int currentOffsetIndex - int start) fixedIndex
                            BYTES_PER_LENGTH_PREFIX of
                       Inl e \<Rightarrow> Inl (e, output1)
                     | Inr output2 \<Rightarrow>
                         serializeObject_loop fvs fields output2 start
                           (fixedIndex + BYTES_PER_LENGTH_PREFIX) nextOffsetIndex))
          else (case serialize_low fv fieldType output fixedIndex of
                  Inl e \<Rightarrow> Inl e
                | Inr (output1, fixedIndex1) \<Rightarrow>
                    serializeObject_loop fvs fields output1 start fixedIndex1
                      currentOffsetIndex))"
  by pat_completeness auto
termination
  apply (relation "measures
     [\<lambda>x. case x of
        Inl (Inl (v, T, output, start)) \<Rightarrow> 3 * size T
      | Inl (Inr (Inl (vs, T, output, start))) \<Rightarrow> 3 * size T + 2
      | Inl (Inr (Inr (vs, T, output, start, fixedIndex, cur))) \<Rightarrow> 3 * size T + 1
      | Inr (Inl (vs, T, output, index)) \<Rightarrow> 3 * size T + 1
      | Inr (Inr (Inl (fvs, fields, output, start))) \<Rightarrow>
          3 * size_list (size_prod (\<lambda>_. 0) size) fields + 2
      | Inr (Inr (Inr (fvs, fields, output, start, fixedIndex, cur))) \<Rightarrow>
          3 * size_list (size_prod (\<lambda>_. 0) size) fields + 1,
      \<lambda>x. case x of
        Inl (Inl (v, T, output, start)) \<Rightarrow> 0
      | Inl (Inr (Inl (vs, T, output, start))) \<Rightarrow> 0
      | Inl (Inr (Inr (vs, T, output, start, fixedIndex, cur))) \<Rightarrow> length vs
      | Inr (Inl (vs, T, output, index)) \<Rightarrow> length vs
      | Inr (Inr (Inl (fvs, fields, output, start))) \<Rightarrow> 0
      | Inr (Inr (Inr (fvs, fields, output, start, fixedIndex, cur))) \<Rightarrow> length fields]")
  apply simp_all
  done

text \<open>
  The public entry: normalize the type, validate the value, allocate the buffer of the
  size the oracle gives, run the dispatcher at index 0, return the buffer. A throw of
  any step leaves the caller without a buffer.
\<close>

definition serialize :: "ssz_value \<Rightarrow> any_type \<Rightarrow> error + buffer" where
  "serialize v type =
     (case parseType type of
        Inl e \<Rightarrow> Inl e
      | Inr T \<Rightarrow>
          (case assertValidValue v T of
             Inl e \<Rightarrow> Inl e
           | Inr _ \<Rightarrow>
               (case size_ssz v T of
                  Inl e \<Rightarrow> Inl e
                | Inr n \<Rightarrow>
                    (let buf = alloc n 0 in
                     case serialize_low v T buf 0 of
                       Inl (e, buf') \<Rightarrow> Inl e
                     | Inr (buf', index) \<Rightarrow> Inr buf'))))"

subsection \<open>Values that can be encoded\<close>

text \<open>
  \<open>holds_integer u i\<close>: \<open>u\<close> is the big number \<open>i\<close>, or the native number \<open>i\<close> with a
  magnitude below \<open>2^53\<close>, the numbers \<^verbatim>\<open>new BN\<close> accepts.
\<close>

definition holds_integer :: "uint \<Rightarrow> int \<Rightarrow> bool" where
  "holds_integer u i \<longleftrightarrow> u = BN i \<or> (u = Number i \<and> \<bar>i\<bar> < 9007199254740992)"

text \<open>
  \<open>encodable v T\<close>: every uint inside \<open>v\<close> either takes the sentinel branch, or both it
  and the bias of its descriptor are numbers \<^verbatim>\<open>new BN\<close> accepts (a big number, or a
  native number of magnitude below \<open>2^53\<close>) and their sum lies in \<open>[0, 2^(8n))\<close> for
  the width \<open>n\<close> of the descriptor.
\<close>

fun encodable :: "ssz_value \<Rightarrow> ssz_type \<Rightarrow> bool" where
  "encodable (VUint u) (Type_uint n useNumber off) =
     ((6 < n \<and> useNumber \<and> u = Infinity)
      \<or> (case new_BN u of
            Inl e \<Rightarrow> False
          | Inr a \<Rightarrow>
              (case new_BN off of
                 Inl e \<Rightarrow> False
               | Inr b \<Rightarrow> 0 \<le> a + b \<and> a + b < 2 ^ (8 * n))))"
| "encodable (VArray vs) (Type_vector T L) = list_all (\<lambda>v. encodable v T) vs"
| "encodable (VArray vs) (Type_list T M) = list_all (\<lambda>v. encodable v T) vs"
| "encodable (VObject fvs) (Type_container fields) =
     list_all (\<lambda>f. case map_of fvs (fst f) of
                         None \<Rightarrow> False
                       | Some fv \<Rightarrow> encodable fv (snd f)) fields"
| "encodable v T = True"

subsection \<open>Observing a run\<close>

text \<open>The buffer a run of the dispatcher leaves behind, whether it returns or throws.\<close>

fun buffer_of :: "result \<Rightarrow> buffer" where
  "buffer_of (Inl (e, b)) = b"
| "buffer_of (Inr (b, i)) = b"

text \<open>
  \<open>unchanged_except S a b\<close>: buffer \<open>b\<close> has the length of \<open>a\<close> and differs from it at
  most at the indices in \<open>S\<close>. \<open>run_ok S out idx r\<close>: the run \<open>r\<close> on \<open>out\<close> wrote
  inside \<open>S\<close> only and, if it returned, returned the index \<open>idx\<close>. \<open>succeeds out idx r\<close>:
  the run returned, with index \<open>idx\<close>.
\<close>

definition unchanged_except :: "nat set \<Rightarrow> buffer \<Rightarrow> buffer \<Rightarrow> bool" where
  "unchanged_except S a b \<longleftrightarrow> length b = length a \<and> (\<forall>i<length a. i \<notin> S \<longrightarrow> b ! i = a ! i)"

definition run_ok :: "nat set \<Rightarrow> buffer \<Rightarrow> nat \<Rightarrow> result \<Rightarrow> bool" where
  "run_ok S out idx r \<longleftrightarrow>
     unchanged_except S out (buffer_of r) \<and> (\<forall>b i. r = Inr (b, i) \<longrightarrow> i = idx)"

definition succeeds :: "buffer \<Rightarrow> nat \<Rightarrow> result \<Rightarrow> bool" where
  "succeeds out idx r \<longleftrightarrow> (\<exists>out'. r = Inr (out', idx) \<and> length out' = length out)"

text \<open>
  The sizes as plain numbers, where the oracle is defined: of a descriptor, of a value,
  and the share of one container field in the fixed and in the variable region.
\<close>

definition fixed_of :: "ssz_type \<Rightarrow> nat" where
  "fixed_of T = (case fixedSize T of Inl e \<Rightarrow> 0 | Inr k \<Rightarrow> k)"

definition size_of :: "ssz_value \<Rightarrow> ssz_type \<Rightarrow> nat" where
  "size_of v T = (case size_ssz v T of Inl e \<Rightarrow> 0 | Inr n \<Rightarrow> n)"

definition field_fixed :: "string \<times> ssz_type \<Rightarrow> nat" where
  "field_fixed f = (if isVariableSizeType (snd f) then 4 else fixed_of (snd f))"

definition field_var :: "(string \<times> ssz_value) list \<Rightarrow> string \<times> ssz_type \<Rightarrow> nat" where
  "field_var fvs f =
     (if isVariableSizeType (snd f)
      then (case map_of fvs (fst f) of None \<Rightarrow> 0 | Some fv \<Rightarrow> size_of fv (snd f))
      else 0)"

text \<open>
  Reading the offset table back from a buffer. \<open>readUIntLE\<close> is Node's method of that
  name on bytes inside the buffer: the unsigned little-endian integer of \<open>byteLength\<close>
  bytes at \<open>offset\<close>. \<open>array_offsets buf p n\<close> are the \<open>n\<close> offset slots of an array whose
  fixed region starts at \<open>p\<close>; \<open>object_offsets buf fields p\<close> are the slots of the
  variable-size fields of a container whose fixed region starts at \<open>p\<close>, in declared
  order, a fixed-size field taking its fixed size in between.
\<close>

definition readUIntLE :: "buffer \<Rightarrow> nat \<Rightarrow> nat \<Rightarrow> int" where
  "readUIntLE buf offset byteLength =
     sum_list (map (\<lambda>i. uint (buf ! (offset + i)) * 256 ^ i) [0..<byteLength])"

fun array_offsets :: "buffer \<Rightarrow> nat \<Rightarrow> nat \<Rightarrow> int list" where
  "array_offsets buf p 0 = []"
| "array_offsets buf p (Suc n) =
     readUIntLE buf p BYTES_PER_LENGTH_PREFIX
     # array_offsets buf (p + BYTES_PER_LENGTH_PREFIX) n"

fun object_offsets :: "buffer \<Rightarrow> (string \<times> ssz_type) list \<Rightarrow> nat \<Rightarrow> int list" where
  "object_offsets buf [] p = []"
| "object_offsets buf ((fieldName, fieldType) # fields) p =
     (if isVariableSizeType fieldType
      then readUIntLE buf p BYTES_PER_LENGTH_PREFIX
           # object_offsets buf fields (p + BYTES_PER_LENGTH_PREFIX)
      else object_offsets buf fields (p + fixed_of fieldType))"

subsection \<open>The wire format\<close>

text \<open>
  Modelled from the spec: the wire format, stated on its own so that what the
  serializer writes can be compared with it. \<open>uint_le n x\<close> are the \<open>n\<close> little-endian
  bytes of the integer \<open>x\<close>: byte \<open>i\<close> is \<open>x div 256^i mod 256\<close>. \<open>integer_of\<close> is the
  integer a uint holds (the infinity holds none and has an encoding at the sentinel
  case only; \<open>integer_of\<close> gives 0 for it).
\<close>

definition uint_le :: "nat \<Rightarrow> int \<Rightarrow> buffer" where
  "uint_le n x = map (\<lambda>i. word_of_int (x div 256 ^ i)) [0..<n]"

fun integer_of :: "uint \<Rightarrow> int" where
  "integer_of (Number i) = i"
| "integer_of (BN i) = i"
| "integer_of Infinity = 0"

text \<open>
  Modelled from the spec: the two regions of an aggregate. The aggregate is given by
  its parts, one per child in declared order: whether the child is of variable size,
  and the bytes of the child. \<open>fixed_region cur parts\<close> is the fixed region when the body
  of the next variable-size child lies \<open>cur\<close> bytes after the start of the aggregate:
  a fixed-size child stands inline, a variable-size child is a slot of
  \<^verbatim>\<open>BYTES_PER_LENGTH_PREFIX\<close> little-endian bytes holding \<open>cur\<close>, and the next body lies
  behind this one. \<open>variable_region parts\<close> are the bodies of the variable-size children
  in order. \<open>fixed_region_length parts\<close> is the length of the fixed region, and
  \<open>layout parts\<close> the whole aggregate: the fixed region, the first body lying directly
  behind it, then the variable region.
\<close>

fun fixed_region :: "nat \<Rightarrow> (bool \<times> buffer) list \<Rightarrow> buffer" where
  "fixed_region cur [] = []"
| "fixed_region cur ((variable, body) # parts) =
     (if variable
      then uint_le BYTES_PER_LENGTH_PREFIX (int cur) @ fixed_region (cur + length body) parts
      else body @ fixed_region cur parts)"

fun variable_region :: "(bool \<times> buffer) list \<Rightarrow> buffer" where
  "variable_region [] = []"
| "variable_region ((variable, body) # parts) =
     (if variable then body @ variable_region parts else variable_region parts)"

definition fixed_region_length :: "(bool \<times> buffer) list \<Rightarrow> nat" where
  "fixed_region_length parts =
     sum_list (map (\<lambda>p. if fst p then BYTES_PER_LENGTH_PREFIX else length (snd p)) parts)"

definition layout :: "(bool \<times> buffer) list \<Rightarrow> buffer" where
  "layout parts = fixed_region (fixed_region_length parts) parts @ variable_region parts"

text \<open>
  Modelled from the spec: the encoding of a value. A bool is the byte 1 or 0; a uint
  its biased integer in \<open>byteLength\<close> little-endian bytes, or all bytes \<open>0xFF\<close> at the
  sentinel case; a byte sequence itself; an array the layout of its elements; a
  container the layout of its fields in declared order. \<open>field_parts\<close> are the parts of
  a container.
\<close>

fun wire_format :: "ssz_value \<Rightarrow> ssz_type \<Rightarrow> buffer" where
  "wire_format (VBool b) Type_bool = [if b then 1 else 0]"
| "wire_format (VUint u) (Type_uint n useNumber off) =
     (if 6 < n \<and> useNumber \<and> u = Infinity then replicate n 255
      else uint_le n (integer_of u + integer_of off))"
| "wire_format (VBytes bs) (Type_byteVector L) = bs"
| "wire_format (VBytes bs) (Type_byteList M) = bs"
| "wire_format (VArray vs) (Type_vector T L) =
     layout (map (\<lambda>v. (isVariableSizeType T, wire_format v T)) vs)"
| "wire_format (VArray vs) (Type_list T M) =
     layout (map (\<lambda>v. (isVariableSizeType T, wire_format v T)) vs)"
| "wire_format (VObject fvs) (Type_container fields) =
     layout (map (\<lambda>f. (isVariableSizeType (snd f),
                         case map_of fvs (fst f) of
                           None \<Rightarrow> []
                         | Some fv \<Rightarrow> wire_format fv (snd f))) fields)"
| "wire_format v T = []"

definition field_parts ::
    "(string \<times> ssz_value) list \<Rightarrow> (string \<times> ssz_type) list \<Rightarrow> (bool \<times> buffer) list" where
  "field_parts fvs fields =
     map (\<lambda>f. (isVariableSizeType (snd f),
               case map_of fvs (fst f) of None \<Rightarrow> [] | Some fv \<Rightarrow> wire_format fv (snd f))) fields"

text \<open>\<open>segment buf p n\<close>: the \<open>n\<close> bytes of \<open>buf\<close> from position \<open>p\<close> on.\<close>

definition segment :: "buffer \<Rightarrow> nat \<Rightarrow> nat \<Rightarrow> buffer" where
  "segment buf p n = take n (drop p buf)"

section \<open>Bytes of an integer\<close>

lemma length_le_bytes [simp]: "length (le_bytes k m) = k"
  by (induction k arbitrary: m) auto

lemma word8_of_int_mod: "(word_of_int (m mod 256) :: byte) = word_of_int m"
proof -
  have "(word_of_int (take_bit 8 m) :: byte) = word_of_int m"
    by (simp add: word_of_int_eq_iff)
  then show ?thesis by (simp add: take_bit_eq_mod)
qed

lemma le_bytes_eq_map:
  "le_bytes k m = map (\<lambda>i. word_of_int (m div 256 ^ i)) [0..<k]"
proof (induction k arbitrary: m)
  case 0
  show ?case by simp
next
  case (Suc k)
  have "map (\<lambda>i. (word_of_int (m div 256 ^ i) :: byte)) [0..<Suc k]
        = word_of_int m # map (\<lambda>i. word_of_int (m div 256 ^ Suc i)) [0..<k]"
    by (simp add: upt_conv_Cons map_Suc_upt [symmetric] del: upt_Suc)
  moreover have "\<And>i. m div 256 ^ Suc i = m div 256 div 256 ^ i"
    by (simp add: zdiv_zmult2_eq)
  ultimately show ?case
    using Suc.IH [of "m div 256"] by (simp add: word8_of_int_mod del: upt_Suc)
qed

lemma div256_less: "(m::int) div 256 < K \<longleftrightarrow> m < 256 * K"
proof -
  define q r where "q = m div 256" and "r = m mod 256"
  have "m = 256 * q + r" "0 \<le> r" "r < 256" by (simp_all add: q_def r_def)
  then show ?thesis unfolding q_def [symmetric] by arith
qed

lemma byteLength_BN_le: "0 \<le> m \<Longrightarrow> byteLength_BN m \<le> k \<longleftrightarrow> m < 256 ^ k"
proof (induction k arbitrary: m)
  case 0
  then show ?case by (auto simp: byteLength_BN.simps [of m])
next
  case (Suc k)
  show ?case
  proof (cases "m = 0")
    case True
    then show ?thesis by (simp add: byteLength_BN.simps [of 0])
  next
    case False
    with Suc.prems have pos: "0 < m" by simp
    have "0 \<le> m div 256" using Suc.prems by (simp add: pos_imp_zdiv_nonneg_iff)
    from Suc.IH [OF this] have "byteLength_BN (m div 256) \<le> k \<longleftrightarrow> m div 256 < 256 ^ k" .
    moreover have "m div 256 < 256 ^ k \<longleftrightarrow> m < 256 ^ Suc k"
      by (simp add: div256_less)
    ultimately show ?thesis using pos by (simp add: byteLength_BN.simps [of m])
  qed
qed

lemma BN_of_buffer_all_ones: "BN_of_buffer (replicate n 255) = 256 ^ n - 1"
proof -
  have u: "uint (255 :: byte) = 255" by simp
  have "foldl (\<lambda>acc b. acc * 256 + uint (b :: byte)) a (replicate n 255) = (a + 1) * 256 ^ n - 1" for a
  proof (induction n arbitrary: a)
    case 0
    show ?case by simp
  next
    case (Suc n)
    show ?case by (simp only: replicate_Suc foldl_Cons Suc.IH u) (simp add: algebra_simps)
  qed
  then show ?thesis by (simp add: BN_of_buffer_def)
qed

lemma le_bytes_all_ones: "le_bytes n (256 ^ n - 1) = replicate n 255"
proof (induction n)
  case 0
  show ?case by simp
next
  case (Suc n)
  have "(256 ^ Suc n - 1 :: int) = 256 * (256 ^ n - 1) + 255" by simp
  then have d: "(256 ^ Suc n - 1 :: int) div 256 = 256 ^ n - 1"
    and m: "(256 ^ Suc n - 1 :: int) mod 256 = 255"
    by (simp_all only: div_mult_self4 mod_mult_self4, simp_all)
  show ?case using Suc.IH by (simp only: le_bytes.simps d m, simp)
qed

lemma copy_fits:
  "start + length src \<le> length tgt \<Longrightarrow>
   copy src tgt start = take start tgt @ src @ drop (start + length src) tgt"
proof (cases "length tgt \<le> start")
  case True
  assume "start + length src \<le> length tgt"
  with True have "length src = 0" "start = length tgt" by arith+
  then show ?thesis by (simp add: copy_def)
next
  case False
  assume "start + length src \<le> length tgt"
  with False show ?thesis by (simp add: copy_def)
qed

lemma toArrayLike_fits:
  "0 < n \<Longrightarrow> 0 \<le> x \<Longrightarrow> x < 256 ^ n \<Longrightarrow> toArrayLike x n = Inr (le_bytes n x)"
  using byteLength_BN_le [of x n] by (simp add: toArrayLike_def Let_def)

lemma pow256: "(2::int) ^ (8 * n) = 256 ^ n"
  by (simp add: power_mult)

text \<open>
  Claim C4. At a uint of more than six bytes with \<^verbatim>\<open>useNumber\<close> set, the positive
  infinity is written as \<open>byteLength\<close> bytes \<open>0xFF\<close> from \<open>start\<close> on (the buffer holding
  that many bytes from \<open>start\<close>), and the new index is \<open>start + byteLength\<close>. At any
  other uint (six bytes or fewer, or \<^verbatim>\<open>useNumber\<close> unset) the sentinel branch is not
  taken: the infinity goes to \<^verbatim>\<open>new BN(value)\<close>, whose assertion fails, and nothing is
  written.
\<close>

theorem serializeUint_infinity_sentinel:
  "(6 < n \<and> start + n \<le> length output \<longrightarrow>
      serializeUint Infinity n True off output start
      = Inr (take start output @ replicate n 255 @ drop (start + n) output, start + n))
   \<and> (\<not> (6 < n \<and> useNumber) \<longrightarrow>
      serializeUint Infinity n useNumber off output start = Inl (AssertionError, output))"
proof (intro conjI impI)
  assume a: "6 < n \<and> start + n \<le> length output"
  then have "toArrayLike (256 ^ n - 1) n = Inr (le_bytes n (256 ^ n - 1))"
    by (intro toArrayLike_fits) auto
  with a show "serializeUint Infinity n True off output start
      = Inr (take start output @ replicate n 255 @ drop (start + n) output, start + n)"
    by (simp add: serializeUint_def alloc_def BN_of_buffer_all_ones le_bytes_all_ones copy_fits)
next
  assume "\<not> (6 < n \<and> useNumber)"
  then show "serializeUint Infinity n useNumber off output start = Inl (AssertionError, output)"
    by (auto simp: serializeUint_def)
qed

theorem serializeUint_infinity_sentinel_witness:
  "serializeUint Infinity 8 True (Number 5) [1, 2, 3, 4, 5, 6, 7, 8, 9, 10] 1
     = Inr ([1, 255, 255, 255, 255, 255, 255, 255, 255, 10], 9)
   \<and> serializeUint Infinity 4 True (Number 5) [1, 2, 3, 4, 5, 6] 1
     = Inl (AssertionError, [1, 2, 3, 4, 5, 6])
   \<and> serializeUint Infinity 8 False (Number 5) [1, 2, 3, 4, 5, 6, 7, 8, 9, 10] 1
     = Inl (AssertionError, [1, 2, 3, 4, 5, 6, 7, 8, 9, 10])"
  using serializeUint_infinity_sentinel
      [of 8 1 "[1, 2, 3, 4, 5, 6, 7, 8, 9, 10]" "Number 5" False]
    serializeUint_infinity_sentinel [of 4 1 "[1, 2, 3, 4, 5, 6]" "Number 5" True]
  by (simp add: numeral_eq_Suc)


lemma new_BN_holds: "holds_integer u i \<Longrightarrow> new_BN u = Inr i"
  by (auto simp: holds_integer_def)

lemma holds_not_Infinity: "holds_integer u i \<Longrightarrow> u \<noteq> Infinity"
  by (auto simp: holds_integer_def)

text \<open>
  Claim C9. When the sentinel branch is taken, the bytes written are \<open>byteLength\<close> times
  \<open>0xFF\<close> whatever the bias \<open>offset\<close> of the type is: the result is the one for bias 0.
  Every other uint value is biased: when the value holds the integer \<open>a\<close> and the bias
  the integer \<open>b\<close> (each a big number, or a native number below \<open>2^53\<close>), serializing the
  value at that bias is serializing the big number \<open>a + b\<close> at bias 0.
\<close>

theorem serializeUint_sentinel_ignores_offset:
  "6 < n \<Longrightarrow>
     serializeUint Infinity n True off output start
       = Inr (copy (replicate n 255) output start, start + n)
     \<and> serializeUint Infinity n True off output start
       = serializeUint Infinity n True (Number 0) output start
     \<and> (holds_integer v a \<and> holds_integer off b \<longrightarrow>
          serializeUint v m useNumber off output start
          = serializeUint (BN (a + b)) m useNumber (Number 0) output start)"
proof -
  assume a: "6 < n"
  then have "toArrayLike (256 ^ n - 1) n = Inr (le_bytes n (256 ^ n - 1))"
    by (intro toArrayLike_fits) auto
  with a have s: "serializeUint Infinity n True k output start
       = Inr (copy (replicate n 255) output start, start + n)" for k
    by (simp add: serializeUint_def alloc_def BN_of_buffer_all_ones le_bytes_all_ones)
  have "serializeUint v m useNumber off output start
          = serializeUint (BN (a + b)) m useNumber (Number 0) output start"
    if "holds_integer v a \<and> holds_integer off b"
    using that new_BN_holds [of v a] new_BN_holds [of off b] holds_not_Infinity [of v a]
    by (simp add: serializeUint_def)
  with s show ?thesis by simp
qed

theorem serializeUint_sentinel_ignores_offset_witness:
  "serializeUint Infinity 8 True (Number 7) (replicate 8 0) 0 = Inr (replicate 8 255, 8)
   \<and> serializeUint Infinity 8 True (Number 0) (replicate 8 0) 0 = Inr (replicate 8 255, 8)
   \<and> serializeUint (Number 9007199254740991) 8 True (Number 1) (replicate 8 0) 0
       = serializeUint (BN 9007199254740992) 8 True (Number 0) (replicate 8 0) 0
   \<and> serializeUint (BN 9007199254740992) 8 True (Number 0) (replicate 8 0) 0
       = Inr ([0, 0, 0, 0, 0, 0, 32, 0], 8)"
proof -
  have h: "(6::nat) < 8" by simp
  have hv: "holds_integer (Number 9007199254740991) 9007199254740991
      \<and> holds_integer (Number 1) 1"
    by (simp add: holds_integer_def)
  have hz: "holds_integer (Number 9007199254740991) 9007199254740991
      \<and> holds_integer (Number 0) 0"
    by (simp add: holds_integer_def)
  have s: "(9007199254740991 :: int) + 1 = 9007199254740992" by simp
  have c: "copy (replicate 8 255) (replicate 8 0) 0 = replicate 8 255"
    by (simp add: copy_def)
  have e: "(0 :: nat) + 8 = 8" by simp
  note t1 = serializeUint_sentinel_ignores_offset
    [OF h, of "Number 7" "replicate 8 0" 0 "Number 9007199254740991"
       9007199254740991 0 8 True, THEN conjunct1, unfolded c e]
  note t2 = serializeUint_sentinel_ignores_offset
    [OF h, of "Number 0" "replicate 8 0" 0 "Number 9007199254740991"
       9007199254740991 0 8 True, THEN conjunct1, unfolded c e]
  note t3 = serializeUint_sentinel_ignores_offset
    [OF h, of "Number 1" "replicate 8 0" 0 "Number 9007199254740991"
       9007199254740991 1 8 True, THEN conjunct2, THEN conjunct2, rule_format, OF hv,
       unfolded s]
  have r: "serializeUint (BN 9007199254740992) 8 True (Number 0) (replicate 8 0) 0
       = Inr ([0, 0, 0, 0, 0, 0, 32, 0], 8)"
    by code_simp
  from t1 t2 t3 r show ?thesis by (intro conjI)
qed

text \<open>
  Claim C3, amended. For a uint of \<open>n \<ge> 1\<close> bytes, a value holding the integer \<open>a\<close> and
  a bias holding the integer \<open>b\<close> (each a big number, or a native number below \<open>2^53\<close>)
  with \<open>a + b\<close> in \<open>[0, 2^(8n))\<close>, serializing into a buffer that holds \<open>n\<close> bytes from
  \<open>start\<close> writes there the \<open>n\<close> little-endian bytes of \<open>a + b\<close> (byte \<open>i\<close> is
  \<open>(a + b) div 256^i mod 256\<close>), leaves the rest of the buffer, and returns \<open>start + n\<close>.
  In particular the native numbers 0, 1 and \<open>0xDEADBEEF\<close> at \<^verbatim>\<open>uint32\<close> give \<open>00000000\<close>,
  \<open>01000000\<close> and \<open>efbeadde\<close>.
\<close>

theorem serializeUint_little_endian:
  assumes "0 < n" and "holds_integer v a" and "holds_integer off b"
    and "0 \<le> a + b" and "a + b < 2 ^ (8 * n)"
    and "start + n \<le> length output"
  shows "serializeUint v n useNumber off output start
           = Inr (take start output
                  @ map (\<lambda>i. word_of_int ((a + b) div 256 ^ i)) [0..<n]
                  @ drop (start + n) output, start + n)
         \<and> serialize (VUint (Number 0)) (Simple_name ''uint32'') = Inr [0, 0, 0, 0]
         \<and> serialize (VUint (Number 1)) (Simple_name ''uint32'') = Inr [1, 0, 0, 0]
         \<and> serialize (VUint (Number 0xDEADBEEF)) (Simple_name ''uint32'')
             = Inr [0xef, 0xbe, 0xad, 0xde]"
proof -
  from assms have "toArrayLike (a + b) n = Inr (le_bytes n (a + b))"
    by (intro toArrayLike_fits) (auto simp: pow256)
  with assms new_BN_holds [OF assms(2)] new_BN_holds [OF assms(3)]
    holds_not_Infinity [OF assms(2)]
  have "serializeUint v n useNumber off output start
           = Inr (take start output
                  @ map (\<lambda>i. word_of_int ((a + b) div 256 ^ i)) [0..<n]
                  @ drop (start + n) output, start + n)"
    by (simp add: serializeUint_def copy_fits le_bytes_eq_map)
  moreover have "serialize (VUint (Number 0)) (Simple_name ''uint32'') = Inr [0, 0, 0, 0]"
    by code_simp
  moreover have "serialize (VUint (Number 1)) (Simple_name ''uint32'') = Inr [1, 0, 0, 0]"
    by code_simp
  moreover have "serialize (VUint (Number 0xDEADBEEF)) (Simple_name ''uint32'')
             = Inr [0xef, 0xbe, 0xad, 0xde]"
    by code_simp
  ultimately show ?thesis by simp
qed

theorem serializeUint_little_endian_witness:
  "serializeUint (Number 0x0102) 2 False (BN 3) [9, 9, 9, 9] 1 = Inr ([9, 5, 1, 9], 3)"
proof -
  have h: "(0::nat) < 2" "holds_integer (Number 0x0102) 0x0102" "holds_integer (BN 3) 3"
    "(0::int) \<le> 0x0102 + 3" "(0x0102::int) + 3 < 2 ^ (8 * 2)"
    "(1::nat) + 2 \<le> length [9, 9, 9, 9 :: byte]"
    by (simp_all add: holds_integer_def)
  show ?thesis
    using serializeUint_little_endian [OF h, of False]
    by (simp add: upt_conv_Cons)
qed

text \<open>
  Claim C3 as stated fails on two kinds of valid value. The bias can carry a value out
  of range: 255 is a valid value of a one-byte uint, but at bias 1 the biased value 256
  does not fit one byte, and the assertion of \<^verbatim>\<open>toArrayLike\<close> fails. And a native
  number can be too large for \<^verbatim>\<open>new BN\<close>: \<open>2^53\<close> is a valid value of an eight-byte
  uint, but as a native number it fails the constructor's assertion. In both runs no
  byte is written and no index returned.
\<close>

theorem serializeUint_biased_overflow:
  "valid_value (VUint (Number 255)) (Type_uint 1 False (Number 1))
   \<and> well_formed (Type_uint 1 False (Number 1))
   \<and> serialize_low (VUint (Number 255)) (Type_uint 1 False (Number 1)) [0, 0] 0
       = Inl (AssertionError, [0, 0])
   \<and> valid_value (VUint (Number 9007199254740992)) (Type_uint 8 False (Number 0))
   \<and> well_formed (Type_uint 8 False (Number 0))
   \<and> serialize_low (VUint (Number 9007199254740992)) (Type_uint 8 False (Number 0))
       [0, 0, 0, 0, 0, 0, 0, 0] 0
       = Inl (AssertionError, [0, 0, 0, 0, 0, 0, 0, 0])"
  by code_simp

text \<open>
  Claim C5. \<^verbatim>\<open>[[1], [2,3]]\<close> at a list of lists of \<^verbatim>\<open>uint32\<close> serializes to the 20 bytes
  \<open>08000000 0c000000 01000000 02000000 03000000\<close>: the outer offsets 8 and 12, then the
  two inner bodies.
\<close>

theorem serialize_nested_list_example:
  "serialize (VArray [VArray [VUint (Number 1)], VArray [VUint (Number 2), VUint (Number 3)]])
     (Simple_list (Simple_list (Simple_name ''uint32'')))
   = Inr [0x08, 0, 0, 0, 0x0c, 0, 0, 0, 0x01, 0, 0, 0, 0x02, 0, 0, 0, 0x03, 0, 0, 0]"
  by code_simp

text \<open>
  Claim C7. When the type normalizer or the validator throws, \<^verbatim>\<open>serialize\<close> throws the
  same error and returns no buffer: both run before the buffer is allocated.
\<close>

theorem serialize_atomic_on_error:
  "(parseType type = Inl e \<longrightarrow> serialize v type = Inl e)
   \<and> (parseType type = Inr T \<and> assertValidValue v T = Inl e \<longrightarrow> serialize v type = Inl e)"
  by (simp add: serialize_def)

theorem serialize_atomic_on_error_witness:
  "serialize (VBool True) (Simple_name ''uint7'') = Inl BadType
   \<and> serialize (VBool True) (Simple_name ''uint8'') = Inl InvalidValue"
proof -
  have "parseType (Simple_name ''uint7'') = Inl BadType" by code_simp
  moreover have "parseType (Simple_name ''uint8'') = Inr (Type_uint 1 False (Number 0))
      \<and> assertValidValue (VBool True) (Type_uint 1 False (Number 0)) = Inl InvalidValue"
    by code_simp
  ultimately show ?thesis
    using serialize_atomic_on_error [of "Simple_name ''uint7''" BadType "VBool True"]
      serialize_atomic_on_error
        [of "Simple_name ''uint8''" InvalidValue "VBool True" "Type_uint 1 False (Number 0)"]
    by simp
qed

section \<open>Where a run writes\<close>

subsection \<open>Buffers that agree outside a set of indices\<close>

lemma unchanged_except_refl [simp]: "unchanged_except S a a"
  by (simp add: unchanged_except_def)

lemma unchanged_except_trans:
  "unchanged_except S a b \<Longrightarrow> unchanged_except S' b c \<Longrightarrow> S \<union> S' \<subseteq> U \<Longrightarrow>
   unchanged_except U a c"
proof -
  assume a: "unchanged_except S a b" "unchanged_except S' b c" and "S \<union> S' \<subseteq> U"
  then have "\<And>i. i \<notin> U \<Longrightarrow> i \<notin> S \<and> i \<notin> S'" by blast
  with a show ?thesis by (simp add: unchanged_except_def)
qed

lemma unchanged_except_mono:
  "unchanged_except S a b \<Longrightarrow> S \<subseteq> U \<Longrightarrow> unchanged_except U a b"
  using unchanged_except_trans [of S a b "{}" b U] by simp

lemma unchanged_except_length: "unchanged_except S a b \<Longrightarrow> length b = length a"
  by (simp add: unchanged_except_def)

lemma run_ok_Inl [simp]: "run_ok S out idx (Inl (e, b)) \<longleftrightarrow> unchanged_except S out b"
  by (simp add: run_ok_def)

lemma run_ok_Inr [simp]:
  "run_ok S out idx (Inr (b, i)) \<longleftrightarrow> unchanged_except S out b \<and> i = idx"
  by (auto simp: run_ok_def)

lemma copy_unchanged: "unchanged_except {p..<p + length s} t (copy s t p)"
proof (cases "length t \<le> p")
  case True
  then show ?thesis by (simp add: copy_def)
next
  case False
  show ?thesis
  proof (cases "p + length s \<le> length t")
    case True
    then show ?thesis
      by (auto simp: copy_fits unchanged_except_def nth_append)
  next
    case False
    with \<open>\<not> length t \<le> p\<close> show ?thesis
      by (auto simp: copy_def unchanged_except_def nth_append)
  qed
qed

lemma writeUInt8_unchanged:
  "writeUInt8 b v p = Inr b' \<Longrightarrow> unchanged_except {p..<p + 1} b b'"
  by (auto simp: writeUInt8_def unchanged_except_def split: if_splits)

lemma writeUIntLE_unchanged:
  "writeUIntLE b v p k = Inr b' \<Longrightarrow> unchanged_except {p..<p + k} b b'"
  by (auto simp: writeUIntLE_def unchanged_except_def nth_append split: if_splits)

subsection \<open>The basic types\<close>

lemma serializeBool_ok: "run_ok {start..<start + 1} out (start + 1) (serializeBool b out start)"
  by (auto simp: serializeBool_def Let_def dest: writeUInt8_unchanged split: sum.splits)

lemma toArrayLike_length: "0 < n \<Longrightarrow> toArrayLike x n = Inr bs \<Longrightarrow> length bs = n"
  by (auto simp: toArrayLike_def Let_def split: if_splits)

lemma copy_toArrayLike_unchanged:
  "0 < n \<Longrightarrow> toArrayLike x n = Inr bs \<Longrightarrow>
   unchanged_except {start..<start + n} out (copy bs out start)"
  using copy_unchanged [of start bs out] toArrayLike_length [of n x bs] by simp

lemma serializeUint_ok:
  "0 < n \<Longrightarrow> run_ok {start..<start + n} out (start + n) (serializeUint u n useNumber off out start)"
  by (auto simp: serializeUint_def Let_def split: sum.splits intro: copy_toArrayLike_unchanged)

lemma serializeByteArray_ok:
  "run_ok {start..<start + length bs} out
     (start + (case T of Type_byteVector L \<Rightarrow> L | _ \<Rightarrow> length bs))
     (serializeByteArray bs T out start)"
  using copy_unchanged by (simp add: serializeByteArray_def Let_def)

subsection \<open>The size of a valid value\<close>

lemma sum_results_defined:
  "(\<And>r. r \<in> set rs \<Longrightarrow> \<exists>k. r = Inr k) \<Longrightarrow> \<exists>s. sum_results rs = Inr s"
  by (induction rs) (auto split: sum.splits)

lemma sum_results_map:
  "(\<And>x. x \<in> set xs \<Longrightarrow> f x = Inr (g x)) \<Longrightarrow> sum_results (map f xs) = Inr (sum_list (map g xs))"
  by (induction xs) auto

lemma fixedSize_defined_ex: "\<not> isVariableSizeType T \<Longrightarrow> \<exists>k. fixedSize T = Inr k"
proof (induction T)
  case (Type_container fields)
  have "\<exists>s. sum_results (map (\<lambda>f. fixedSize (snd f)) fields) = Inr s"
  proof (rule sum_results_defined)
    fix r assume "r \<in> set (map (\<lambda>f. fixedSize (snd f)) fields)"
    then obtain f where f: "f \<in> set fields" "r = fixedSize (snd f)" by auto
    with Type_container.prems have "\<not> isVariableSizeType (snd f)"
      by (auto simp: list_ex_iff)
    with Type_container.IH [of f "snd f"] f show "\<exists>k. r = Inr k"
      by (cases f) auto
  qed
  then show ?case by simp
qed auto

lemma fixedSize_defined: "\<not> isVariableSizeType T \<Longrightarrow> fixedSize T = Inr (fixed_of T)"
  using fixedSize_defined_ex [of T] by (auto simp: fixed_of_def)

lemma size_fixed: "\<not> isVariableSizeType T \<Longrightarrow> size_ssz v T = fixedSize T"
  by (cases T) auto

lemma size_of_fixed: "\<not> isVariableSizeType T \<Longrightarrow> size_of v T = fixed_of T"
  by (simp add: size_of_def fixed_of_def size_fixed)


lemma valid_container_field:
  assumes "valid_value (VObject fvs) (Type_container fields)" and "f \<in> set fields"
  shows "\<exists>fv. map_of fvs (fst f) = Some fv \<and> valid_value fv (snd f)"
proof -
  from assms(1) have "\<forall>f\<in>set fields.
      case map_of fvs (fst f) of None \<Rightarrow> False | Some fv \<Rightarrow> valid_value fv (snd f)"
    by (simp add: list_all_iff)
  with assms(2) have "case map_of fvs (fst f) of None \<Rightarrow> False
      | Some fv \<Rightarrow> valid_value fv (snd f)"
    by blast
  then show ?thesis by (cases "map_of fvs (fst f)") simp_all
qed

lemma valid_container_shape:
  "valid_value v (Type_container fields) \<Longrightarrow> \<exists>fvs. v = VObject fvs"
  by (cases v) auto

lemma size_defined_ex: "valid_value v T \<Longrightarrow> \<exists>n. size_ssz v T = Inr n"
proof (induction T arbitrary: v)
  case Type_bool
  then show ?case by simp
next
  case (Type_uint n u off)
  then show ?case by simp
next
  case (Type_byteVector L)
  then show ?case by simp
next
  case (Type_byteList M)
  then show ?case by (cases v) auto
next
  case (Type_vector T L)
  show ?case
  proof (cases "isVariableSizeType T")
    case False
    then show ?thesis using fixedSize_defined_ex [of "Type_vector T L"] by simp
  next
    case True
    from Type_vector.prems obtain vs where v: "v = VArray vs" and
      el: "\<And>x. x \<in> set vs \<Longrightarrow> valid_value x T"
      by (cases v) (auto simp: list_all_iff)
    have "\<exists>s. sum_results (map (\<lambda>x. size_ssz x T) vs) = Inr s"
      by (rule sum_results_defined) (use el Type_vector.IH in auto)
    with True v show ?thesis by auto
  qed
next
  case (Type_list T M)
  from Type_list.prems obtain vs where v: "v = VArray vs" and
    el: "\<And>x. x \<in> set vs \<Longrightarrow> valid_value x T"
    by (cases v) (auto simp: list_all_iff)
  show ?case
  proof (cases "isVariableSizeType T")
    case False
    then show ?thesis using fixedSize_defined_ex [of T] v by auto
  next
    case True
    have "\<exists>s. sum_results (map (\<lambda>x. size_ssz x T) vs) = Inr s"
      by (rule sum_results_defined) (use el Type_list.IH in auto)
    with True v show ?thesis by auto
  qed
next
  case (Type_container fields)
  show ?case
  proof (cases "isVariableSizeType (Type_container fields)")
    case False
    then show ?thesis
      using fixedSize_defined_ex [of "Type_container fields"] by (simp del: fixedSize.simps)
  next
    case True
    from Type_container.prems obtain fvs where v: "v = VObject fvs"
      using valid_container_shape by blast
    have el: "\<And>f. f \<in> set fields \<Longrightarrow>
        \<exists>fv. map_of fvs (fst f) = Some fv \<and> valid_value fv (snd f)"
      using valid_container_field Type_container.prems v by blast
    have "\<exists>s. sum_results (map (\<lambda>f.
                  if isVariableSizeType (snd f)
                  then (case map_of fvs (fst f) of
                          None \<Rightarrow> Inl InvalidValue
                        | Some fv \<Rightarrow>
                            (case size_ssz fv (snd f) of
                               Inl e \<Rightarrow> Inl e
                             | Inr s \<Rightarrow> Inr (BYTES_PER_LENGTH_PREFIX + s)))
                  else fixedSize (snd f)) fields) = Inr s"
    proof (rule sum_results_defined)
      fix r
      assume "r \<in> set (map (\<lambda>f.
                  if isVariableSizeType (snd f)
                  then (case map_of fvs (fst f) of
                          None \<Rightarrow> Inl InvalidValue
                        | Some fv \<Rightarrow>
                            (case size_ssz fv (snd f) of
                               Inl e \<Rightarrow> Inl e
                             | Inr s \<Rightarrow> Inr (BYTES_PER_LENGTH_PREFIX + s)))
                  else fixedSize (snd f)) fields)"
      then obtain f where f: "f \<in> set fields" and
        r: "r = (if isVariableSizeType (snd f)
                  then (case map_of fvs (fst f) of
                          None \<Rightarrow> Inl InvalidValue
                        | Some fv \<Rightarrow>
                            (case size_ssz fv (snd f) of
                               Inl e \<Rightarrow> Inl e
                             | Inr s \<Rightarrow> Inr (BYTES_PER_LENGTH_PREFIX + s)))
                  else fixedSize (snd f))"
        by auto
      from el [OF f] obtain fv where fv: "map_of fvs (fst f) = Some fv" "valid_value fv (snd f)"
        by auto
      have "\<exists>n. size_ssz fv (snd f) = Inr n"
        using Type_container.IH [of f "snd f" fv] f fv by (cases f) auto
      then show "\<exists>k. r = Inr k"
        using r fv fixedSize_defined_ex [of "snd f"] by auto
    qed
    with True v show ?thesis by (simp del: isVariableSizeType.simps)
  qed
qed

lemma size_defined: "valid_value v T \<Longrightarrow> size_ssz v T = Inr (size_of v T)"
  using size_defined_ex [of v T] by (auto simp: size_of_def)

lemma fixed_of_vector:
  "\<not> isVariableSizeType T \<Longrightarrow> fixed_of (Type_vector T L) = L * fixed_of T"
  using fixedSize_defined_ex [of T] by (auto simp: fixed_of_def)

lemma size_of_array_variable:
  assumes "isVariableSizeType T" and "\<And>x. x \<in> set vs \<Longrightarrow> valid_value x T"
  shows "size_of (VArray vs) (Type_list T M) = length vs * 4 + sum_list (map (\<lambda>x. size_of x T) vs)"
    and "size_of (VArray vs) (Type_vector T L) = length vs * 4 + sum_list (map (\<lambda>x. size_of x T) vs)"
proof -
  have "sum_results (map (\<lambda>x. size_ssz x T) vs) = Inr (sum_list (map (\<lambda>x. size_of x T) vs))"
    by (rule sum_results_map) (use assms size_defined in auto)
  with assms(1) show
    "size_of (VArray vs) (Type_list T M) = length vs * 4 + sum_list (map (\<lambda>x. size_of x T) vs)"
    "size_of (VArray vs) (Type_vector T L) = length vs * 4 + sum_list (map (\<lambda>x. size_of x T) vs)"
    by (simp_all add: size_of_def BYTES_PER_LENGTH_PREFIX_def)
qed

lemma size_of_list_fixed:
  "\<not> isVariableSizeType T \<Longrightarrow> size_of (VArray vs) (Type_list T M) = length vs * fixed_of T"
  using fixedSize_defined [of T] by (simp add: size_of_def)

lemma fixedLength_eq: "fixedLength fields = Inr (sum_list (map field_fixed fields))"
  unfolding fixedLength_def
  by (rule sum_results_map)
     (auto simp: field_fixed_def BYTES_PER_LENGTH_PREFIX_def fixedSize_defined)

lemma sum_list_field_split:
  "sum_list (map (\<lambda>f. field_fixed f + field_var fvs f) fields)
   = sum_list (map field_fixed fields) + sum_list (map (field_var fvs) fields)"
  by (induction fields) auto

lemma size_of_container:
  assumes "\<And>f. f \<in> set fields \<Longrightarrow>
             \<exists>fv. map_of fvs (fst f) = Some fv \<and> valid_value fv (snd f)"
  shows "size_of (VObject fvs) (Type_container fields)
         = sum_list (map field_fixed fields) + sum_list (map (field_var fvs) fields)"
proof (cases "isVariableSizeType (Type_container fields)")
  case True
  have "sum_results (map (\<lambda>f.
                  if isVariableSizeType (snd f)
                  then (case map_of fvs (fst f) of
                          None \<Rightarrow> Inl InvalidValue
                        | Some fv \<Rightarrow>
                            (case size_ssz fv (snd f) of
                               Inl e \<Rightarrow> Inl e
                             | Inr s \<Rightarrow> Inr (BYTES_PER_LENGTH_PREFIX + s)))
                  else fixedSize (snd f)) fields)
        = Inr (sum_list (map (\<lambda>f. field_fixed f + field_var fvs f) fields))"
  proof (rule sum_results_map)
    fix f assume "f \<in> set fields"
    from assms [OF this] obtain fv where "map_of fvs (fst f) = Some fv" "valid_value fv (snd f)"
      by auto
    then show "(if isVariableSizeType (snd f)
                  then (case map_of fvs (fst f) of
                          None \<Rightarrow> Inl InvalidValue
                        | Some fv \<Rightarrow>
                            (case size_ssz fv (snd f) of
                               Inl e \<Rightarrow> Inl e
                             | Inr s \<Rightarrow> Inr (BYTES_PER_LENGTH_PREFIX + s)))
                  else fixedSize (snd f)) = Inr (field_fixed f + field_var fvs f)"
      by (simp add: field_fixed_def field_var_def size_defined fixedSize_defined
            BYTES_PER_LENGTH_PREFIX_def)
  qed
  with True show ?thesis
    by (simp add: size_of_def sum_list_field_split del: isVariableSizeType.simps)
next
  case False
  then have nv: "\<And>f. f \<in> set fields \<Longrightarrow> \<not> isVariableSizeType (snd f)"
    by (auto simp: list_ex_iff)
  have "sum_results (map (\<lambda>f. fixedSize (snd f)) fields)
        = Inr (sum_list (map field_fixed fields))"
    by (rule sum_results_map) (simp add: nv field_fixed_def fixedSize_defined)
  moreover have "sum_list (map (field_var fvs) fields) = 0"
    using nv by (simp add: field_var_def)
  ultimately show ?thesis using False
    by (simp add: size_of_def del: isVariableSizeType.simps)
qed


subsection \<open>The loops and the dispatcher\<close>

lemma serializeArray_fixed_ok:
  assumes "\<And>v out start. v \<in> set vs \<Longrightarrow>
             run_ok {start..<start + k} out (start + k) (serialize_low v et out start)"
  shows "run_ok {index..<index + length vs * k} out (index + length vs * k)
           (serializeArray_fixed vs et out index)"
  using assms
proof (induction vs arbitrary: out index)
  case Nil
  show ?case by simp
next
  case (Cons v vs)
  have el: "run_ok {index..<index + k} out (index + k) (serialize_low v et out index)"
    using Cons.prems by simp
  show ?case
  proof (cases "serialize_low v et out index")
    case (Inl eb)
    obtain e b where "eb = (e, b)" by (cases eb)
    with Inl el show ?thesis by (auto elim: unchanged_except_mono)
  next
    case (Inr p)
    obtain out1 index1 where p: "p = (out1, index1)" by (cases p)
    from el Inr p have i1: "index1 = index + k"
      and u1: "unchanged_except {index..<index + k} out out1" by auto
    have rec: "run_ok {index1..<index1 + length vs * k} out1 (index1 + length vs * k)
        (serializeArray_fixed vs et out1 index1)"
      using Cons.IH Cons.prems by simp
    show ?thesis
    proof (cases "serializeArray_fixed vs et out1 index1")
      case (Inl eb)
      obtain e b where eb: "eb = (e, b)" by (cases eb)
      with Inl rec have "unchanged_except {index1..<index1 + length vs * k} out1 b" by simp
      with u1 have "unchanged_except {index..<index + length (v # vs) * k} out b"
        by (rule unchanged_except_trans) (auto simp: i1)
      with Inl eb \<open>serialize_low v et out index = Inr p\<close> p show ?thesis by simp
    next
      case (Inr q)
      obtain b i where q: "q = (b, i)" by (cases q)
      with Inr rec have "unchanged_except {index1..<index1 + length vs * k} out1 b"
        and i: "i = index1 + length vs * k" by simp_all
      with u1 have "unchanged_except {index..<index + length (v # vs) * k} out b"
        by - (erule unchanged_except_trans, assumption, auto simp: i1)
      with Inr q i i1 \<open>serialize_low v et out index = Inr p\<close> p show ?thesis by simp
    qed
  qed
qed

lemma serializeArray_variable_ok:
  assumes "\<And>v out start. v \<in> set vs \<Longrightarrow>
             run_ok {start..<start + sz v} out (start + sz v) (serialize_low v et out start)"
  shows "run_ok ({fi..<fi + 4 * length vs} \<union> {cur..<cur + sum_list (map sz vs)}) out
           (cur + sum_list (map sz vs))
           (serializeArray_variable vs et out start fi cur)"
  using assms
proof (induction vs arbitrary: out fi cur)
  case Nil
  show ?case by simp
next
  case (Cons v vs)
  let ?U = "{fi..<fi + 4 * length (v # vs)} \<union> {cur..<cur + sum_list (map sz (v # vs))}"
  have el: "run_ok {cur..<cur + sz v} out (cur + sz v) (serialize_low v et out cur)"
    using Cons.prems by simp
  show ?case
  proof (cases "serialize_low v et out cur")
    case (Inl eb)
    obtain e b where "eb = (e, b)" by (cases eb)
    with Inl el show ?thesis by (auto elim: unchanged_except_mono)
  next
    case (Inr p)
    obtain out1 next1 where p: "p = (out1, next1)" by (cases p)
    from el Inr p have n1: "next1 = cur + sz v"
      and u1: "unchanged_except {cur..<cur + sz v} out out1" by auto
    from u1 have u1': "unchanged_except ?U out out1"
      by (rule unchanged_except_mono) auto
    show ?thesis
    proof (cases "writeUIntLE out1 (int cur - int start) fi BYTES_PER_LENGTH_PREFIX")
      case (Inl e)
      with \<open>serialize_low v et out cur = Inr p\<close> p u1' show ?thesis by simp
    next
      case (Inr out2)
      then have "unchanged_except {fi..<fi + 4} out1 out2"
        using writeUIntLE_unchanged [of out1 _ fi 4 out2]
        by (simp add: BYTES_PER_LENGTH_PREFIX_def)
      with u1 have u2: "unchanged_except ({cur..<cur + sz v} \<union> {fi..<fi + 4}) out out2"
        by (rule unchanged_except_trans) simp
      have rec: "run_ok ({fi + 4..<fi + 4 + 4 * length vs}
            \<union> {next1..<next1 + sum_list (map sz vs)}) out2
          (next1 + sum_list (map sz vs))
          (serializeArray_variable vs et out2 start (fi + 4) next1)"
        using Cons.IH Cons.prems by simp
      have eq: "serializeArray_variable (v # vs) et out start fi cur
          = serializeArray_variable vs et out2 start (fi + 4) next1"
        using \<open>serialize_low v et out cur = Inr p\<close> p Inr
        by (simp add: BYTES_PER_LENGTH_PREFIX_def)
      show ?thesis
      proof (cases "serializeArray_variable vs et out2 start (fi + 4) next1")
        case (Inl eb)
        obtain e b where eb: "eb = (e, b)" by (cases eb)
        with Inl rec have "unchanged_except ({fi + 4..<fi + 4 + 4 * length vs}
            \<union> {next1..<next1 + sum_list (map sz vs)}) out2 b" by simp
        with u2 have "unchanged_except ?U out b"
          by (rule unchanged_except_trans) (auto simp: n1)
        with Inl eb eq show ?thesis by simp
      next
        case (Inr q)
        obtain b i where q: "q = (b, i)" by (cases q)
        with Inr rec have "unchanged_except ({fi + 4..<fi + 4 + 4 * length vs}
            \<union> {next1..<next1 + sum_list (map sz vs)}) out2 b"
          and i: "i = next1 + sum_list (map sz vs)" by simp_all
        with u2 have "unchanged_except ?U out b"
          by - (erule unchanged_except_trans, assumption, auto simp: n1)
        with Inr q i n1 eq show ?thesis by simp
      qed
    qed
  qed
qed


lemma serializeObject_loop_ok:
  assumes "\<And>f out start. f \<in> set fs \<Longrightarrow>
             \<exists>fv. map_of fvs (fst f) = Some fv
               \<and> run_ok {start..<start + size_of fv (snd f)} out (start + size_of fv (snd f))
                    (serialize_low fv (snd f) out start)"
  shows "run_ok ({fi..<fi + sum_list (map field_fixed fs)}
                 \<union> {cur..<cur + sum_list (map (field_var fvs) fs)}) out
           (cur + sum_list (map (field_var fvs) fs))
           (serializeObject_loop fvs fs out start fi cur)"
  using assms
proof (induction fs arbitrary: out fi cur)
  case Nil
  show ?case by simp
next
  case (Cons f fs)
  obtain name T where f: "f = (name, T)" by (cases f)
  let ?U = "{fi..<fi + sum_list (map field_fixed (f # fs))}
            \<union> {cur..<cur + sum_list (map (field_var fvs) (f # fs))}"
  have ex: "\<exists>fv. map_of fvs name = Some fv
      \<and> run_ok {start..<start + size_of fv T} out (start + size_of fv T)
           (serialize_low fv T out start)" for out start
    using Cons.prems [of f start out] by (simp add: f)
  from ex [of 0 "[]"] obtain fv where fv: "map_of fvs name = Some fv" by blast
  have el: "run_ok {start..<start + size_of fv T} out (start + size_of fv T)
      (serialize_low fv T out start)" for out start
  proof -
    from ex [of start out] obtain fv' where "map_of fvs name = Some fv'"
      and r: "run_ok {start..<start + size_of fv' T} out (start + size_of fv' T)
           (serialize_low fv' T out start)" by blast
    with fv have "fv' = fv" by simp
    with r show ?thesis by simp
  qed
  have IH: "\<And>out fi cur. run_ok ({fi..<fi + sum_list (map field_fixed fs)}
                 \<union> {cur..<cur + sum_list (map (field_var fvs) fs)}) out
           (cur + sum_list (map (field_var fvs) fs))
           (serializeObject_loop fvs fs out start fi cur)"
    using Cons.IH Cons.prems by simp
  show ?case
  proof (cases "isVariableSizeType T")
    case True
    then have ff: "field_fixed f = 4" and fvar: "field_var fvs f = size_of fv T"
      by (simp_all add: f field_fixed_def field_var_def fv)
    show ?thesis
    proof (cases "serialize_low fv T out cur")
      case (Inl eb)
      obtain e b where "eb = (e, b)" by (cases eb)
      with Inl el [of cur out] True fv show ?thesis
        by (auto simp: f fvar [unfolded f] elim!: unchanged_except_mono)
    next
      case (Inr p)
      obtain out1 next1 where p: "p = (out1, next1)" by (cases p)
      from el [of cur out] Inr p have n1: "next1 = cur + size_of fv T"
        and u1: "unchanged_except {cur..<cur + size_of fv T} out out1" by auto
      from u1 have u1': "unchanged_except ?U out out1"
        by (rule unchanged_except_mono) (auto simp: fvar)
      show ?thesis
      proof (cases "writeUIntLE out1 (int cur - int start) fi BYTES_PER_LENGTH_PREFIX")
        case (Inl e)
        with \<open>serialize_low fv T out cur = Inr p\<close> p u1' True fv show ?thesis
          by (simp add: f)
      next
        case (Inr out2)
        then have "unchanged_except {fi..<fi + 4} out1 out2"
          using writeUIntLE_unchanged [of out1 _ fi 4 out2]
          by (simp add: BYTES_PER_LENGTH_PREFIX_def)
        with u1 have
          u2: "unchanged_except ({cur..<cur + size_of fv T} \<union> {fi..<fi + 4}) out out2"
          by (rule unchanged_except_trans) simp
        have eq: "serializeObject_loop fvs (f # fs) out start fi cur
            = serializeObject_loop fvs fs out2 start (fi + 4) next1"
          using \<open>serialize_low fv T out cur = Inr p\<close> p Inr True fv
          by (simp add: f BYTES_PER_LENGTH_PREFIX_def)
        note rec = IH [of "fi + 4" next1 out2]
        show ?thesis
        proof (cases "serializeObject_loop fvs fs out2 start (fi + 4) next1")
          case (Inl eb)
          obtain e b where eb: "eb = (e, b)" by (cases eb)
          with Inl rec have "unchanged_except ({fi + 4..<fi + 4 + sum_list (map field_fixed fs)}
              \<union> {next1..<next1 + sum_list (map (field_var fvs) fs)}) out2 b" by simp
          with u2 have "unchanged_except ?U out b"
            by (rule unchanged_except_trans) (auto simp: n1 ff fvar)
          with Inl eb eq show ?thesis by simp
        next
          case (Inr q)
          obtain b i where q: "q = (b, i)" by (cases q)
          with Inr rec have
            "unchanged_except ({fi + 4..<fi + 4 + sum_list (map field_fixed fs)}
              \<union> {next1..<next1 + sum_list (map (field_var fvs) fs)}) out2 b"
            and i: "i = next1 + sum_list (map (field_var fvs) fs)" by simp_all
          with u2 have "unchanged_except ?U out b"
            by - (erule unchanged_except_trans, assumption, auto simp: n1 ff fvar)
          with Inr q i n1 eq fvar show ?thesis by simp
        qed
      qed
    qed
  next
    case False
    then have ff: "field_fixed f = size_of fv T" and fvar: "field_var fvs f = 0"
      by (simp_all add: f field_fixed_def field_var_def size_of_fixed)
    show ?thesis
    proof (cases "serialize_low fv T out fi")
      case (Inl eb)
      obtain e b where "eb = (e, b)" by (cases eb)
      with Inl el [of fi out] False fv show ?thesis
        by (auto simp: f ff [unfolded f] elim!: unchanged_except_mono)
    next
      case (Inr p)
      obtain out1 fi1 where p: "p = (out1, fi1)" by (cases p)
      from el [of fi out] Inr p have n1: "fi1 = fi + size_of fv T"
        and u1: "unchanged_except {fi..<fi + size_of fv T} out out1" by auto
      have eq: "serializeObject_loop fvs (f # fs) out start fi cur
          = serializeObject_loop fvs fs out1 start fi1 cur"
        using \<open>serialize_low fv T out fi = Inr p\<close> p False fv by (simp add: f)
      note rec = IH [of fi1 cur out1]
      show ?thesis
      proof (cases "serializeObject_loop fvs fs out1 start fi1 cur")
        case (Inl eb)
        obtain e b where eb: "eb = (e, b)" by (cases eb)
        with Inl rec have "unchanged_except ({fi1..<fi1 + sum_list (map field_fixed fs)}
            \<union> {cur..<cur + sum_list (map (field_var fvs) fs)}) out1 b" by simp
        with u1 have "unchanged_except ?U out b"
          by (rule unchanged_except_trans) (auto simp: n1 ff fvar)
        with Inl eb eq show ?thesis by simp
      next
        case (Inr q)
        obtain b i where q: "q = (b, i)" by (cases q)
        with Inr rec have "unchanged_except ({fi1..<fi1 + sum_list (map field_fixed fs)}
            \<union> {cur..<cur + sum_list (map (field_var fvs) fs)}) out1 b"
          and i: "i = cur + sum_list (map (field_var fvs) fs)" by simp_all
        with u1 have "unchanged_except ?U out b"
          by - (erule unchanged_except_trans, assumption, auto simp: n1 ff fvar)
        with Inr q i eq fvar show ?thesis by simp
      qed
    qed
  qed
qed

lemma valid_array_shape:
  "valid_value v (Type_list T M) \<or> valid_value v (Type_vector T L) \<Longrightarrow>
   \<exists>vs. v = VArray vs \<and> (\<forall>x\<in>set vs. valid_value x T)"
  by (cases v) (auto simp: list_all_iff)

lemma serialize_low_ok:
  "valid_value v T \<Longrightarrow> well_formed T \<Longrightarrow>
   run_ok {start..<start + size_of v T} out (start + size_of v T) (serialize_low v T out start)"
proof (induction T arbitrary: v out start)
  case Type_bool
  then obtain b where "v = VBool b" by (cases v) auto
  then show ?case using serializeBool_ok [of start out b] by (simp add: size_of_def)
next
  case (Type_uint n u off)
  then obtain x where "v = VUint x" by (cases v) auto
  moreover from Type_uint.prems have "0 < n" by auto
  ultimately show ?case
    using serializeUint_ok [of n start out x u off] by (simp add: size_of_def)
next
  case (Type_byteVector L)
  then obtain bs where "v = VBytes bs" "length bs = L" by (cases v) auto
  then show ?case
    using serializeByteArray_ok [of start bs out "Type_byteVector L"] by (simp add: size_of_def)
next
  case (Type_byteList M)
  then obtain bs where "v = VBytes bs" by (cases v) auto
  then show ?case
    using serializeByteArray_ok [of start bs out "Type_byteList M"] by (simp add: size_of_def)
next
  case (Type_vector T L)
  from Type_vector.prems obtain vs where v: "v = VArray vs"
    and el: "\<And>x. x \<in> set vs \<Longrightarrow> valid_value x T"
    using valid_array_shape [of v T None L] by blast
  from Type_vector.prems v have len: "length vs = L" by simp
  from Type_vector.prems have wf: "well_formed T" by simp
  have IH: "\<And>x out start. x \<in> set vs \<Longrightarrow>
      run_ok {start..<start + size_of x T} out (start + size_of x T)
        (serialize_low x T out start)"
    using Type_vector.IH el wf by blast
  show ?case
  proof (cases "isVariableSizeType T")
    case True
    have "run_ok ({start..<start + 4 * length vs}
          \<union> {start + length vs * 4..<start + length vs * 4
                + sum_list (map (\<lambda>x. size_of x T) vs)}) out
        (start + length vs * 4 + sum_list (map (\<lambda>x. size_of x T) vs))
        (serializeArray_variable vs T out start start (start + length vs * 4))"
      by (rule serializeArray_variable_ok) (rule IH)
    then have "run_ok {start..<start + (length vs * 4 + sum_list (map (\<lambda>x. size_of x T) vs))}
        out (start + (length vs * 4 + sum_list (map (\<lambda>x. size_of x T) vs)))
        (serializeArray_variable vs T out start start (start + length vs * 4))"
      by (simp add: ivl_disj_un add.assoc mult.commute)
    then show ?thesis
      using True v size_of_array_variable(2) [OF True el, of vs L]
      by (simp add: BYTES_PER_LENGTH_PREFIX_def)
  next
    case False
    have "run_ok {start..<start + length vs * fixed_of T} out
        (start + length vs * fixed_of T) (serializeArray_fixed vs T out start)"
      by (rule serializeArray_fixed_ok) (use IH False size_of_fixed in auto)
    then show ?thesis
      using False v len by (simp add: size_of_fixed fixed_of_vector)
  qed
next
  case (Type_list T M)
  from Type_list.prems obtain vs where v: "v = VArray vs"
    and el: "\<And>x. x \<in> set vs \<Longrightarrow> valid_value x T"
    using valid_array_shape [of v T M 0] by blast
  from Type_list.prems have wf: "well_formed T" by simp
  have IH: "\<And>x out start. x \<in> set vs \<Longrightarrow>
      run_ok {start..<start + size_of x T} out (start + size_of x T)
        (serialize_low x T out start)"
    using Type_list.IH el wf by blast
  show ?case
  proof (cases "isVariableSizeType T")
    case True
    have "run_ok ({start..<start + 4 * length vs}
          \<union> {start + length vs * 4..<start + length vs * 4
                + sum_list (map (\<lambda>x. size_of x T) vs)}) out
        (start + length vs * 4 + sum_list (map (\<lambda>x. size_of x T) vs))
        (serializeArray_variable vs T out start start (start + length vs * 4))"
      by (rule serializeArray_variable_ok) (rule IH)
    then have "run_ok {start..<start + (length vs * 4 + sum_list (map (\<lambda>x. size_of x T) vs))}
        out (start + (length vs * 4 + sum_list (map (\<lambda>x. size_of x T) vs)))
        (serializeArray_variable vs T out start start (start + length vs * 4))"
      by (simp add: ivl_disj_un add.assoc mult.commute)
    then show ?thesis
      using True v size_of_array_variable(1) [OF True el, of vs M]
      by (simp add: BYTES_PER_LENGTH_PREFIX_def)
  next
    case False
    have "run_ok {start..<start + length vs * fixed_of T} out
        (start + length vs * fixed_of T) (serializeArray_fixed vs T out start)"
      by (rule serializeArray_fixed_ok) (use IH False size_of_fixed in auto)
    then show ?thesis
      using False v by (simp add: size_of_list_fixed)
  qed
next
  case (Type_container fields)
  from Type_container.prems obtain fvs where v: "v = VObject fvs"
    using valid_container_shape by blast
  have el: "\<And>f. f \<in> set fields \<Longrightarrow>
      \<exists>fv. map_of fvs (fst f) = Some fv \<and> valid_value fv (snd f)"
    using valid_container_field Type_container.prems v by blast
  have wf: "\<And>f. f \<in> set fields \<Longrightarrow> well_formed (snd f)"
    using Type_container.prems by (simp add: list_all_iff)
  have fields_ok: "\<And>f out start. f \<in> set fields \<Longrightarrow>
             \<exists>fv. map_of fvs (fst f) = Some fv
               \<and> run_ok {start..<start + size_of fv (snd f)} out (start + size_of fv (snd f))
                    (serialize_low fv (snd f) out start)"
  proof -
    fix f out start assume f: "f \<in> set fields"
    from el [OF f] obtain fv where fv: "map_of fvs (fst f) = Some fv" "valid_value fv (snd f)"
      by auto
    have "run_ok {start..<start + size_of fv (snd f)} out (start + size_of fv (snd f))
                    (serialize_low fv (snd f) out start)"
      using Type_container.IH [of f "snd f" fv start out] f fv wf [OF f] by (cases f) auto
    with fv show "\<exists>fv. map_of fvs (fst f) = Some fv
               \<and> run_ok {start..<start + size_of fv (snd f)} out (start + size_of fv (snd f))
                    (serialize_low fv (snd f) out start)" by blast
  qed
  let ?FL = "sum_list (map field_fixed fields)"
  let ?VS = "sum_list (map (field_var fvs) fields)"
  have "run_ok ({start..<start + ?FL} \<union> {start + ?FL..<start + ?FL + ?VS}) out
      (start + ?FL + ?VS) (serializeObject_loop fvs fields out start start (start + ?FL))"
    by (rule serializeObject_loop_ok) (rule fields_ok)
  then have "run_ok {start..<start + (?FL + ?VS)} out (start + (?FL + ?VS))
      (serializeObject_loop fvs fields out start start (start + ?FL))"
    by (simp add: ivl_disj_un add.assoc)
  then show ?case
    using v size_of_container [OF el] by (simp add: fixedLength_eq)
qed

section \<open>When a run returns\<close>

lemma writeUIntLE_succeeds:
  "0 \<le> v \<Longrightarrow> v < 4294967296 \<Longrightarrow> p + 4 \<le> length b \<Longrightarrow>
   \<exists>b'. writeUIntLE b v p BYTES_PER_LENGTH_PREFIX = Inr b' \<and> length b' = length b"
  by (simp add: writeUIntLE_def BYTES_PER_LENGTH_PREFIX_def)

lemma elem_le_sum_list: "x \<in> set xs \<Longrightarrow> (f x :: nat) \<le> sum_list (map f xs)"
  by (induction xs) auto

lemma serializeArray_fixed_succeeds:
  assumes "\<And>v out st. v \<in> set vs \<Longrightarrow> st + k \<le> length out \<Longrightarrow>
             succeeds out (st + k) (serialize_low v et out st)"
    and "index + length vs * k \<le> length out"
  shows "succeeds out (index + length vs * k) (serializeArray_fixed vs et out index)"
  using assms
proof (induction vs arbitrary: out index)
  case Nil
  show ?case by (simp add: succeeds_def)
next
  case (Cons v vs)
  have "succeeds out (index + k) (serialize_low v et out index)"
    using Cons.prems by simp
  then obtain out1 where o1: "serialize_low v et out index = Inr (out1, index + k)"
    and l1: "length out1 = length out" by (auto simp: succeeds_def)
  have "succeeds out1 (index + k + length vs * k) (serializeArray_fixed vs et out1 (index + k))"
    using Cons.prems l1 by (intro Cons.IH) (auto simp: algebra_simps)
  with o1 l1 show ?case by (simp add: succeeds_def algebra_simps)
qed

lemma serializeArray_variable_succeeds:
  assumes "\<And>v out st. v \<in> set vs \<Longrightarrow> st + sz v \<le> length out \<Longrightarrow>
             succeeds out (st + sz v) (serialize_low v et out st)"
    and "fi + 4 * length vs \<le> length out"
    and "cur + sum_list (map sz vs) \<le> length out"
    and "start \<le> cur"
    and "cur + sum_list (map sz vs) < start + 4294967296"
  shows "succeeds out (cur + sum_list (map sz vs))
           (serializeArray_variable vs et out start fi cur)"
  using assms
proof (induction vs arbitrary: out fi cur)
  case Nil
  show ?case by (simp add: succeeds_def)
next
  case (Cons v vs)
  have "succeeds out (cur + sz v) (serialize_low v et out cur)"
    using Cons.prems by simp
  then obtain out1 where o1: "serialize_low v et out cur = Inr (out1, cur + sz v)"
    and l1: "length out1 = length out" by (auto simp: succeeds_def)
  have "\<exists>b'. writeUIntLE out1 (int cur - int start) fi BYTES_PER_LENGTH_PREFIX = Inr b'
      \<and> length b' = length out1"
    using Cons.prems l1 by (intro writeUIntLE_succeeds) auto
  then obtain out2 where
    o2: "writeUIntLE out1 (int cur - int start) fi BYTES_PER_LENGTH_PREFIX = Inr out2"
    and l2: "length out2 = length out" using l1 by auto
  have "succeeds out2 (cur + sz v + sum_list (map sz vs))
      (serializeArray_variable vs et out2 start (fi + 4) (cur + sz v))"
    using Cons.prems l2 by (intro Cons.IH) (auto simp: algebra_simps)
  with o1 o2 l2 show ?case
    by (simp add: succeeds_def algebra_simps BYTES_PER_LENGTH_PREFIX_def)
qed

lemma serializeObject_loop_succeeds:
  assumes "\<And>f out st. f \<in> set fs \<Longrightarrow>
             \<exists>fv. map_of fvs (fst f) = Some fv
               \<and> (st + size_of fv (snd f) \<le> length out \<longrightarrow>
                    succeeds out (st + size_of fv (snd f)) (serialize_low fv (snd f) out st))"
    and "fi + sum_list (map field_fixed fs) \<le> length out"
    and "cur + sum_list (map (field_var fvs) fs) \<le> length out"
    and "start \<le> cur"
    and "cur + sum_list (map (field_var fvs) fs) < start + 4294967296"
  shows "succeeds out (cur + sum_list (map (field_var fvs) fs))
           (serializeObject_loop fvs fs out start fi cur)"
  using assms
proof (induction fs arbitrary: out fi cur)
  case Nil
  show ?case by (simp add: succeeds_def)
next
  case (Cons f fs)
  obtain name T where f: "f = (name, T)" by (cases f)
  have ex: "\<exists>fv. map_of fvs name = Some fv
      \<and> (st + size_of fv T \<le> length out \<longrightarrow>
            succeeds out (st + size_of fv T) (serialize_low fv T out st))" for out st
    using Cons.prems(1) [of f st out] by (simp add: f)
  from ex [of 0 "[]"] obtain fv where fv: "map_of fvs name = Some fv" by blast
  have el: "st + size_of fv T \<le> length out \<Longrightarrow>
      succeeds out (st + size_of fv T) (serialize_low fv T out st)" for out st
  proof -
    assume a: "st + size_of fv T \<le> length out"
    from ex [of st out] obtain fv' where "map_of fvs name = Some fv'"
      and r: "st + size_of fv' T \<le> length out \<longrightarrow>
            succeeds out (st + size_of fv' T) (serialize_low fv' T out st)" by blast
    with fv have "fv' = fv" by simp
    with r a show ?thesis by simp
  qed
  have rest: "\<And>f out st. f \<in> set fs \<Longrightarrow>
             \<exists>fv. map_of fvs (fst f) = Some fv
               \<and> (st + size_of fv (snd f) \<le> length out \<longrightarrow>
                    succeeds out (st + size_of fv (snd f)) (serialize_low fv (snd f) out st))"
    using Cons.prems(1) by simp
  show ?case
  proof (cases "isVariableSizeType T")
    case True
    then have ff: "field_fixed f = 4" and fvar: "field_var fvs f = size_of fv T"
      by (simp_all add: f field_fixed_def field_var_def fv)
    have "succeeds out (cur + size_of fv T) (serialize_low fv T out cur)"
      using Cons.prems(3) by (intro el) (simp add: fvar)
    then obtain out1 where o1: "serialize_low fv T out cur = Inr (out1, cur + size_of fv T)"
      and l1: "length out1 = length out" by (auto simp: succeeds_def)
    have "\<exists>b'. writeUIntLE out1 (int cur - int start) fi BYTES_PER_LENGTH_PREFIX = Inr b'
        \<and> length b' = length out1"
      using Cons.prems(2-5) l1 by (intro writeUIntLE_succeeds) (auto simp: ff)
    then obtain out2 where
      o2: "writeUIntLE out1 (int cur - int start) fi BYTES_PER_LENGTH_PREFIX = Inr out2"
      and l2: "length out2 = length out" using l1 by auto
    have "succeeds out2 (cur + size_of fv T + sum_list (map (field_var fvs) fs))
        (serializeObject_loop fvs fs out2 start (fi + 4) (cur + size_of fv T))"
      using Cons.prems(2-5) l2 rest by (intro Cons.IH) (auto simp: algebra_simps ff fvar)
    with o1 o2 l2 True fv show ?thesis
      by (simp add: f succeeds_def algebra_simps BYTES_PER_LENGTH_PREFIX_def
            fvar [unfolded f])
  next
    case False
    then have ff: "field_fixed f = size_of fv T" and fvar: "field_var fvs f = 0"
      by (simp_all add: f field_fixed_def field_var_def size_of_fixed)
    have "succeeds out (fi + size_of fv T) (serialize_low fv T out fi)"
      using Cons.prems(2) by (intro el) (simp add: ff)
    then obtain out1 where o1: "serialize_low fv T out fi = Inr (out1, fi + size_of fv T)"
      and l1: "length out1 = length out" by (auto simp: succeeds_def)
    have "succeeds out1 (cur + sum_list (map (field_var fvs) fs))
        (serializeObject_loop fvs fs out1 start (fi + size_of fv T) cur)"
      using Cons.prems(2-5) l1 rest by (intro Cons.IH) (auto simp: algebra_simps ff fvar)
    with o1 l1 False fv show ?thesis
      by (simp add: f succeeds_def fvar [unfolded f])
  qed
qed

lemma serializeBool_succeeds:
  "start + 1 \<le> length out \<Longrightarrow> succeeds out (start + 1) (serializeBool b out start)"
  by (simp add: serializeBool_def writeUInt8_def succeeds_def)

lemma length_copy [simp]: "length (copy s t p) = length t"
  using copy_unchanged [of p s t] by (simp add: unchanged_except_def)

lemma serializeUint_succeeds:
  assumes "encodable (VUint u) (Type_uint n useNumber off)" and "0 < n"
  shows "succeeds out (start + n) (serializeUint u n useNumber off out start)"
proof (cases "6 < n \<and> useNumber \<and> u = Infinity")
  case True
  have "toArrayLike (256 ^ n - 1) n = Inr (le_bytes n (256 ^ n - 1))"
    using assms(2) by (intro toArrayLike_fits) auto
  with True show ?thesis
    by (simp add: serializeUint_def succeeds_def alloc_def BN_of_buffer_all_ones)
next
  case False
  with assms(1) obtain a b where ab: "new_BN u = Inr a" "new_BN off = Inr b"
    and r: "0 \<le> a + b" "a + b < 2 ^ (8 * n)"
    by (auto split: sum.splits)
  from r assms(2) have "toArrayLike (a + b) n = Inr (le_bytes n (a + b))"
    by (intro toArrayLike_fits) (auto simp: pow256)
  with False ab show ?thesis by (auto simp: serializeUint_def succeeds_def)
qed

lemma encodable_container_field:
  assumes "encodable (VObject fvs) (Type_container fields)" and "f \<in> set fields"
    and "map_of fvs (fst f) = Some fv"
  shows "encodable fv (snd f)"
proof -
  from assms(1) have "\<forall>f\<in>set fields.
      case map_of fvs (fst f) of None \<Rightarrow> False | Some fv \<Rightarrow> encodable fv (snd f)"
    by (simp add: list_all_iff)
  with assms(2) have "case map_of fvs (fst f) of None \<Rightarrow> False
      | Some fv \<Rightarrow> encodable fv (snd f)"
    by blast
  with assms(3) show ?thesis by simp
qed

lemma serialize_low_succeeds:
  "valid_value v T \<Longrightarrow> well_formed T \<Longrightarrow> encodable v T \<Longrightarrow>
   start + size_of v T \<le> length out \<Longrightarrow> size_of v T < 4294967296 \<Longrightarrow>
   succeeds out (start + size_of v T) (serialize_low v T out start)"
proof (induction T arbitrary: v out start)
  case Type_bool
  then obtain b where "v = VBool b" by (cases v) auto
  with Type_bool.prems show ?case
    using serializeBool_succeeds [of start out b] by (simp add: size_of_def)
next
  case (Type_uint n u off)
  then obtain x where v: "v = VUint x" by (cases v) auto
  from Type_uint.prems have "0 < n" by auto
  with Type_uint.prems(3) v show ?case
    using serializeUint_succeeds [of x n u off out start] by (simp add: size_of_def)
next
  case (Type_byteVector L)
  then obtain bs where "v = VBytes bs" "length bs = L" by (cases v) auto
  then show ?case
    by (simp add: size_of_def serializeByteArray_def succeeds_def)
next
  case (Type_byteList M)
  then obtain bs where "v = VBytes bs" by (cases v) auto
  then show ?case
    by (simp add: size_of_def serializeByteArray_def succeeds_def)
next
  case (Type_vector T L)
  from Type_vector.prems obtain vs where v: "v = VArray vs"
    and el: "\<And>x. x \<in> set vs \<Longrightarrow> valid_value x T"
    using valid_array_shape [of v T None L] by blast
  from Type_vector.prems v have len: "length vs = L" by simp
  from Type_vector.prems have wf: "well_formed T" by simp
  have enc: "\<And>x. x \<in> set vs \<Longrightarrow> encodable x T"
    using Type_vector.prems(3) v by (simp add: list_all_iff)
  show ?case
  proof (cases "isVariableSizeType T")
    case True
    have sz: "size_of v (Type_vector T L)
        = length vs * 4 + sum_list (map (\<lambda>x. size_of x T) vs)"
      using size_of_array_variable(2) [OF True el, of vs L] v by simp
    have "succeeds out (start + length vs * 4 + sum_list (map (\<lambda>x. size_of x T) vs))
        (serializeArray_variable vs T out start start (start + length vs * 4))"
    proof (rule serializeArray_variable_succeeds)
      fix x and out :: buffer and st assume x: "x \<in> set vs" and "st + size_of x T \<le> length out"
      moreover have "size_of x T < 4294967296"
        using elem_le_sum_list [OF x, of "\<lambda>x. size_of x T"] Type_vector.prems(5) sz by simp
      ultimately show "succeeds out (st + size_of x T) (serialize_low x T out st)"
        using Type_vector.IH el wf enc by blast
    qed (use Type_vector.prems(4,5) sz in auto)
    then show ?thesis using True v sz
      by (simp add: BYTES_PER_LENGTH_PREFIX_def add.assoc)
  next
    case False
    have sz: "size_of v (Type_vector T L) = length vs * fixed_of T"
      using False len by (simp add: size_of_fixed fixed_of_vector)
    have "succeeds out (start + length vs * fixed_of T) (serializeArray_fixed vs T out start)"
    proof (rule serializeArray_fixed_succeeds)
      fix x and out :: buffer and st assume x: "x \<in> set vs" and a: "st + fixed_of T \<le> length out"
      from x have "0 < length vs" by (cases vs) auto
      then have kle: "fixed_of T \<le> length vs * fixed_of T"
        by (cases "length vs") simp_all
      have "length vs * fixed_of T < 4294967296"
        using Type_vector.prems(5) sz by simp
      with kle have "fixed_of T < 4294967296" by (rule le_less_trans)
      then have "size_of x T < 4294967296"
        using False by (simp add: size_of_fixed)
      with a x show "succeeds out (st + fixed_of T) (serialize_low x T out st)"
        using Type_vector.IH [of x st out] el wf enc False by (simp add: size_of_fixed)
    qed (use Type_vector.prems(4) sz in auto)
    then show ?thesis using False v sz by simp
  qed
next
  case (Type_list T M)
  from Type_list.prems obtain vs where v: "v = VArray vs"
    and el: "\<And>x. x \<in> set vs \<Longrightarrow> valid_value x T"
    using valid_array_shape [of v T M 0] by blast
  from Type_list.prems have wf: "well_formed T" by simp
  have enc: "\<And>x. x \<in> set vs \<Longrightarrow> encodable x T"
    using Type_list.prems(3) v by (simp add: list_all_iff)
  show ?case
  proof (cases "isVariableSizeType T")
    case True
    have sz: "size_of v (Type_list T M)
        = length vs * 4 + sum_list (map (\<lambda>x. size_of x T) vs)"
      using size_of_array_variable(1) [OF True el, of vs M] v by simp
    have "succeeds out (start + length vs * 4 + sum_list (map (\<lambda>x. size_of x T) vs))
        (serializeArray_variable vs T out start start (start + length vs * 4))"
    proof (rule serializeArray_variable_succeeds)
      fix x and out :: buffer and st assume x: "x \<in> set vs" and "st + size_of x T \<le> length out"
      moreover have "size_of x T < 4294967296"
        using elem_le_sum_list [OF x, of "\<lambda>x. size_of x T"] Type_list.prems(5) sz by simp
      ultimately show "succeeds out (st + size_of x T) (serialize_low x T out st)"
        using Type_list.IH el wf enc by blast
    qed (use Type_list.prems(4,5) sz in auto)
    then show ?thesis using True v sz
      by (simp add: BYTES_PER_LENGTH_PREFIX_def add.assoc)
  next
    case False
    have sz: "size_of v (Type_list T M) = length vs * fixed_of T"
      using False v by (simp add: size_of_list_fixed)
    have "succeeds out (start + length vs * fixed_of T) (serializeArray_fixed vs T out start)"
    proof (rule serializeArray_fixed_succeeds)
      fix x and out :: buffer and st assume x: "x \<in> set vs" and a: "st + fixed_of T \<le> length out"
      from x have "0 < length vs" by (cases vs) auto
      then have kle: "fixed_of T \<le> length vs * fixed_of T"
        by (cases "length vs") simp_all
      have "length vs * fixed_of T < 4294967296"
        using Type_list.prems(5) sz by simp
      with kle have "fixed_of T < 4294967296" by (rule le_less_trans)
      then have "size_of x T < 4294967296"
        using False by (simp add: size_of_fixed)
      with a x show "succeeds out (st + fixed_of T) (serialize_low x T out st)"
        using Type_list.IH [of x st out] el wf enc False by (simp add: size_of_fixed)
    qed (use Type_list.prems(4) sz in auto)
    then show ?thesis using False v sz by simp
  qed
next
  case (Type_container fields)
  from Type_container.prems obtain fvs where v: "v = VObject fvs"
    using valid_container_shape by blast
  have el: "\<And>f. f \<in> set fields \<Longrightarrow>
      \<exists>fv. map_of fvs (fst f) = Some fv \<and> valid_value fv (snd f)"
    using valid_container_field Type_container.prems v by blast
  have wf: "\<And>f. f \<in> set fields \<Longrightarrow> well_formed (snd f)"
    using Type_container.prems by (simp add: list_all_iff)
  let ?FL = "sum_list (map field_fixed fields)"
  let ?VS = "sum_list (map (field_var fvs) fields)"
  have sz: "size_of v (Type_container fields) = ?FL + ?VS"
    using v size_of_container [OF el] by simp
  have "succeeds out (start + ?FL + ?VS)
      (serializeObject_loop fvs fields out start start (start + ?FL))"
  proof (rule serializeObject_loop_succeeds)
    fix f and out :: buffer and st assume f: "f \<in> set fields"
    from el [OF f] obtain fv where fv: "map_of fvs (fst f) = Some fv" "valid_value fv (snd f)"
      by auto
    have enc: "encodable fv (snd f)"
      using encodable_container_field Type_container.prems(3) v f fv(1) by blast
    have "size_of fv (snd f) \<le> field_fixed f + field_var fvs f"
      using fv by (simp add: field_fixed_def field_var_def size_of_fixed)
    moreover have "field_fixed f \<le> ?FL" "field_var fvs f \<le> ?VS"
      using f by (simp_all add: elem_le_sum_list)
    ultimately have "size_of fv (snd f) < 4294967296"
      using Type_container.prems(5) sz by simp
    then have "st + size_of fv (snd f) \<le> length out \<longrightarrow>
        succeeds out (st + size_of fv (snd f)) (serialize_low fv (snd f) out st)"
      using Type_container.IH [of f "snd f" fv st out] f fv wf [OF f] enc by (cases f) auto
    with fv show "\<exists>fv. map_of fvs (fst f) = Some fv
               \<and> (st + size_of fv (snd f) \<le> length out \<longrightarrow>
                    succeeds out (st + size_of fv (snd f)) (serialize_low fv (snd f) out st))"
      by blast
  qed (use Type_container.prems(4,5) sz in auto)
  then show ?case using v sz by (simp add: fixedLength_eq add.assoc)
qed

section \<open>Normalized descriptors\<close>

lemma collect_results_Inr: "collect_results rs = Inr xs \<Longrightarrow> rs = map Inr xs"
  by (induction rs arbitrary: xs) (auto split: sum.splits)

lemma parse_fields_both:
  "collect_results (map (\<lambda>f. case parseType (snd f) of
                                 Inl e \<Rightarrow> Inl e
                               | Inr T' \<Rightarrow> Inr (fst f, T')) fields) = Inr fields' \<Longrightarrow>
   map fst fields' = map fst fields
   \<and> (\<forall>f'\<in>set fields'. \<exists>f\<in>set fields. parseType (snd f) = Inr (snd f'))"
proof (induction fields arbitrary: fields')
  case Nil
  then show ?case by simp
next
  case (Cons f fields)
  from Cons.prems obtain T' rest where p: "parseType (snd f) = Inr T'"
    and c: "collect_results (map (\<lambda>f. case parseType (snd f) of
                                 Inl e \<Rightarrow> Inl e
                               | Inr T' \<Rightarrow> Inr (fst f, T')) fields) = Inr rest"
    and f': "fields' = (fst f, T') # rest"
    by (auto split: sum.splits)
  from Cons.IH [OF c] p f' show ?case by auto
qed

lemma parse_fields:
  assumes "collect_results (map (\<lambda>f. case parseType (snd f) of
                                 Inl e \<Rightarrow> Inl e
                               | Inr T' \<Rightarrow> Inr (fst f, T')) fields) = Inr fields'"
  shows "map fst fields' = map fst fields"
    and "\<And>f'. f' \<in> set fields' \<Longrightarrow> \<exists>f\<in>set fields. parseType (snd f) = Inr (snd f')"
  using parse_fields_both [OF assms] by blast+

lemma parseType_well_formed: "parseType t = Inr T \<Longrightarrow> well_formed T"
proof (induction t arbitrary: T)
  case (Simple_name s)
  then show ?case by (auto split: if_splits option.splits)
next
  case (Simple_list t)
  then show ?case by (auto split: sum.splits)
next
  case (Simple_vector t len)
  then show ?case by (auto split: sum.splits if_splits)
next
  case (Simple_container name fields)
  from Simple_container.prems obtain fields' where d: "distinct (map fst fields)"
    and c: "collect_results (map (\<lambda>f. case parseType (snd f) of
                                 Inl e \<Rightarrow> Inl e
                               | Inr T' \<Rightarrow> Inr (fst f, T')) fields) = Inr fields'"
    and T: "T = Type_container fields'"
    by (auto split: if_splits sum.splits)
  have "well_formed (snd f')" if "f' \<in> set fields'" for f'
  proof -
    from parse_fields(2) [OF c that] obtain f where f: "f \<in> set fields"
      "parseType (snd f) = Inr (snd f')" by blast
    moreover have "snd f \<in> Basic_BNFs.snds f" by (cases f) simp
    ultimately show ?thesis using Simple_container.IH [of f "snd f" "snd f'"] by blast
  qed
  with d parse_fields(1) [OF c] T show ?case by (simp add: list_all_iff)
qed

section \<open>Size, empty lists and the frame of a run\<close>

lemma dispatcher_size_faithful:
  assumes "valid_value v T" and "well_formed T"
  shows "\<exists>n. size_ssz v T = Inr n
           \<and> (\<forall>buf index. serialize_low v T (alloc n 0) 0 = Inr (buf, index) \<longrightarrow>
                 length buf = n \<and> index = n)
           \<and> (n < 2 ^ 32 \<and> encodable v T \<longrightarrow>
                 (\<exists>buf. serialize_low v T (alloc n 0) 0 = Inr (buf, n)))"
proof -
  let ?n = "size_of v T"
  have sz: "size_ssz v T = Inr ?n" using assms(1) by (rule size_defined)
  have ok: "run_ok {0..<0 + ?n} (alloc ?n 0) (0 + ?n) (serialize_low v T (alloc ?n 0) 0)"
    using assms by (rule serialize_low_ok)
  have part: "length buf = ?n \<and> index = ?n"
    if "serialize_low v T (alloc ?n 0) 0 = Inr (buf, index)" for buf index
    using ok that by (simp add: unchanged_except_def alloc_def)
  have tot: "\<exists>buf. serialize_low v T (alloc ?n 0) 0 = Inr (buf, ?n)"
    if "?n < 2 ^ 32 \<and> encodable v T"
  proof -
    have "succeeds (alloc ?n 0) (0 + ?n) (serialize_low v T (alloc ?n 0) 0)"
      using assms that by (intro serialize_low_succeeds) (simp_all add: alloc_def)
    then show ?thesis by (auto simp: succeeds_def)
  qed
  from sz part tot show ?thesis by blast
qed

text \<open>
  Claim C1. For a type the normalizer accepts and a value the validator accepts, the
  size oracle is defined, say \<open>n\<close>; whenever \<^verbatim>\<open>serialize\<close> returns a buffer, the buffer
  has length \<open>n\<close> and the dispatcher, run at index 0 on the \<open>n\<close> zero bytes allocated,
  returns that buffer and the index \<open>n\<close>; and \<^verbatim>\<open>serialize\<close> does return when \<open>n\<close> is
  below \<open>2^32\<close>, the range of a 4-byte offset, and the value can be encoded (no native
  number from \<open>2^53\<close> on, no biased value out of range). The same holds of the
  dispatcher for every well-formed descriptor, the biased ones and those with
  \<^verbatim>\<open>useNumber\<close> set among them: run at index 0 on the \<open>n\<close> zero bytes, it returns the
  index \<open>n\<close> and a buffer of length \<open>n\<close> whenever it returns, and it returns under
  the same two conditions.
\<close>

theorem serialize_size_faithful:
  "(parseType type = Inr T \<and> assertValidValue v T = Inr () \<longrightarrow>
      (\<exists>n. size_ssz v T = Inr n
         \<and> (\<forall>buf. serialize v type = Inr buf \<longrightarrow>
               length buf = n \<and> serialize_low v T (alloc n 0) 0 = Inr (buf, n))
         \<and> (n < 2 ^ 32 \<and> encodable v T \<longrightarrow> (\<exists>buf. serialize v type = Inr buf))))
   \<and> (valid_value v' T' \<and> well_formed T' \<longrightarrow>
      (\<exists>n. size_ssz v' T' = Inr n
         \<and> (\<forall>buf index. serialize_low v' T' (alloc n 0) 0 = Inr (buf, index) \<longrightarrow>
               length buf = n \<and> index = n)
         \<and> (n < 2 ^ 32 \<and> encodable v' T' \<longrightarrow>
               (\<exists>buf. serialize_low v' T' (alloc n 0) 0 = Inr (buf, n)))))"
proof (intro conjI impI)
  assume a: "parseType type = Inr T \<and> assertValidValue v T = Inr ()"
  then have valid: "valid_value v T"
    by (simp add: assertValidValue_def split: if_splits)
  from a have wf: "well_formed T"
    using parseType_well_formed by blast
  from dispatcher_size_faithful [OF valid wf] obtain n where sz: "size_ssz v T = Inr n"
    and part: "\<And>buf index. serialize_low v T (alloc n 0) 0 = Inr (buf, index) \<Longrightarrow>
                 length buf = n \<and> index = n"
    and tot: "n < 2 ^ 32 \<and> encodable v T \<Longrightarrow>
                 \<exists>buf. serialize_low v T (alloc n 0) 0 = Inr (buf, n)"
    by blast
  have ser: "serialize v type =
      (case serialize_low v T (alloc n 0) 0 of Inl (e, buf') \<Rightarrow> Inl e
       | Inr (buf', index) \<Rightarrow> Inr buf')"
    using a sz by (simp add: serialize_def)
  have p1: "length buf = n \<and> serialize_low v T (alloc n 0) 0 = Inr (buf, n)"
    if "serialize v type = Inr buf" for buf
  proof (cases "serialize_low v T (alloc n 0) 0")
    case (Inl eb)
    with that ser show ?thesis by (cases eb) simp
  next
    case (Inr p)
    obtain b i where p: "p = (b, i)" by (cases p)
    with Inr part [of b i] have "i = n" "length b = n" by simp_all
    moreover from that ser Inr p have "buf = b" by simp
    ultimately show ?thesis using Inr p by simp
  qed
  have p2: "\<exists>buf. serialize v type = Inr buf" if "n < 2 ^ 32 \<and> encodable v T"
    using tot [OF that] ser by auto
  from sz p1 p2 show "\<exists>n. size_ssz v T = Inr n
         \<and> (\<forall>buf. serialize v type = Inr buf \<longrightarrow>
               length buf = n \<and> serialize_low v T (alloc n 0) 0 = Inr (buf, n))
         \<and> (n < 2 ^ 32 \<and> encodable v T \<longrightarrow> (\<exists>buf. serialize v type = Inr buf))"
    by blast
next
  assume "valid_value v' T' \<and> well_formed T'"
  then show "\<exists>n. size_ssz v' T' = Inr n
         \<and> (\<forall>buf index. serialize_low v' T' (alloc n 0) 0 = Inr (buf, index) \<longrightarrow>
               length buf = n \<and> index = n)
         \<and> (n < 2 ^ 32 \<and> encodable v' T' \<longrightarrow>
               (\<exists>buf. serialize_low v' T' (alloc n 0) 0 = Inr (buf, n)))"
    using dispatcher_size_faithful by blast
qed

theorem serialize_size_faithful_witness:
  "size_ssz (VArray [VBytes [1, 2, 3], VBytes []]) (Type_list (Type_byteList None) None) = Inr 11
   \<and> serialize (VArray [VBytes [1, 2, 3], VBytes []]) (Simple_list (Simple_name ''bytes''))
       = Inr [8, 0, 0, 0, 11, 0, 0, 0, 1, 2, 3]
   \<and> serialize_low (VArray [VBytes [1, 2, 3], VBytes []]) (Type_list (Type_byteList None) None)
       (alloc 11 0) 0 = Inr ([8, 0, 0, 0, 11, 0, 0, 0, 1, 2, 3], 11)
   \<and> size_ssz (VArray [VUint Infinity, VUint (BN 5)])
       (Type_vector (Type_uint 8 True (Number 1)) 2) = Inr 16
   \<and> (\<exists>buf. serialize_low (VArray [VUint Infinity, VUint (BN 5)])
         (Type_vector (Type_uint 8 True (Number 1)) 2) (alloc 16 0) 0 = Inr (buf, 16))"
proof -
  define v1 where "v1 = VArray [VBytes [1, 2, 3], VBytes []]"
  define T1 where "T1 = Type_list (Type_byteList None) None"
  define b1 :: buffer where "b1 = [8, 0, 0, 0, 11, 0, 0, 0, 1, 2, 3]"
  define v2 where "v2 = VArray [VUint Infinity, VUint (BN 5)]"
  define T2 where "T2 = Type_vector (Type_uint 8 True (Number 1)) 2"
  have p: "parseType (Simple_list (Simple_name ''bytes'')) = Inr T1
      \<and> assertValidValue v1 T1 = Inr ()"
    unfolding v1_def T1_def by code_simp
  have s: "size_ssz v1 T1 = Inr 11" unfolding v1_def T1_def by code_simp
  have r: "serialize v1 (Simple_list (Simple_name ''bytes'')) = Inr b1"
    unfolding v1_def b1_def by code_simp
  have q: "valid_value v2 T2 \<and> well_formed T2" unfolding v2_def T2_def by code_simp
  have s2: "size_ssz v2 T2 = Inr 16" unfolding v2_def T2_def by code_simp
  have "encodable v2 T2" unfolding v2_def T2_def by code_simp
  moreover have "(16 :: nat) < 2 ^ 32" by simp
  ultimately have e2: "(16 :: nat) < 2 ^ 32 \<and> encodable v2 T2" by (intro conjI)
  note t = serialize_size_faithful [of "Simple_list (Simple_name ''bytes'')" T1 v1 v2 T2]
  from t [THEN conjunct1, rule_format, OF p] obtain n where n: "size_ssz v1 T1 = Inr n"
    and imp: "\<forall>buf. serialize v1 (Simple_list (Simple_name ''bytes'')) = Inr buf \<longrightarrow>
        length buf = n \<and> serialize_low v1 T1 (alloc n 0) 0 = Inr (buf, n)"
    by blast
  from n [unfolded s] have n11: "n = 11" by simp
  from imp r have "serialize_low v1 T1 (alloc n 0) 0 = Inr (b1, n)" by blast
  then have low: "serialize_low v1 T1 (alloc 11 0) 0 = Inr (b1, 11)" unfolding n11 .
  from t [THEN conjunct2, rule_format, OF q] obtain m where m: "size_ssz v2 T2 = Inr m"
    and tot: "m < 2 ^ 32 \<and> encodable v2 T2 \<longrightarrow>
        (\<exists>buf. serialize_low v2 T2 (alloc m 0) 0 = Inr (buf, m))"
    by blast
  from m [unfolded s2] have m16: "m = 16" by simp
  from tot e2 have ex: "\<exists>buf. serialize_low v2 T2 (alloc 16 0) 0 = Inr (buf, 16)"
    unfolding m16 by blast
  from s r low s2 ex show ?thesis
    unfolding v1_def T1_def b1_def v2_def T2_def by (intro conjI)
qed

text \<open>
  Claim C8. The empty list, at a list of any element type the normalizer accepts, fixed
  or variable in size, serializes to the empty byte sequence.
\<close>

theorem serialize_empty_list:
  "parseType elementType = Inr T \<Longrightarrow> serialize (VArray []) (Simple_list elementType) = Inr []"
proof -
  assume p: "parseType elementType = Inr T"
  have "size_ssz (VArray []) (Type_list T None) = Inr 0"
    using fixedSize_defined_ex [of T] by (auto simp: BYTES_PER_LENGTH_PREFIX_def)
  with p show ?thesis
    by (simp add: serialize_def assertValidValue_def alloc_def BYTES_PER_LENGTH_PREFIX_def)
qed

theorem serialize_empty_list_witness:
  "serialize (VArray []) (Simple_list (Simple_name ''uint32'')) = Inr []
   \<and> serialize (VArray []) (Simple_list (Simple_list (Simple_name ''uint32''))) = Inr []"
proof -
  have "parseType (Simple_name ''uint32'') = Inr (Type_uint 4 False (Number 0))" by code_simp
  moreover have "parseType (Simple_list (Simple_name ''uint32''))
      = Inr (Type_list (Type_uint 4 False (Number 0)) None)" by code_simp
  ultimately show ?thesis
    using serialize_empty_list [of "Simple_name ''uint32''" "Type_uint 4 False (Number 0)"]
      serialize_empty_list [of "Simple_list (Simple_name ''uint32'')"
        "Type_list (Type_uint 4 False (Number 0)) None"]
    by simp
qed

text \<open>
  Claim C10. For a valid value of a well-formed descriptor, of size \<open>n\<close>, the
  dispatcher run at \<open>start\<close> leaves a buffer of the same length in which every byte
  outside \<open>[start, start + n)\<close> has its prior value, whether the run returns or throws,
  and a run that returns gives the index \<open>start + n\<close>. This holds for every buffer, the
  large enough ones among them.
\<close>

theorem serialize_low_frame:
  assumes "valid_value v T" and "well_formed T" and "size_ssz v T = Inr n"
  shows "length (buffer_of (serialize_low v T output start)) = length output
         \<and> (\<forall>i<length output. i < start \<or> start + n \<le> i \<longrightarrow>
               buffer_of (serialize_low v T output start) ! i = output ! i)
         \<and> (\<forall>output' index. serialize_low v T output start = Inr (output', index) \<longrightarrow>
               index = start + n)"
proof -
  from assms(1,3) have n: "n = size_of v T" by (simp add: size_defined)
  have "run_ok {start..<start + n} output (start + n) (serialize_low v T output start)"
    unfolding n using assms(1,2) by (rule serialize_low_ok)
  then show ?thesis by (auto simp: run_ok_def unchanged_except_def)
qed

theorem serialize_low_frame_witness:
  "serialize_low (VArray [VBytes [1, 2, 3], VBytes []]) (Type_list (Type_byteList None) None)
     (replicate 14 7) 2 = Inr ([7, 7, 8, 0, 0, 0, 11, 0, 0, 0, 1, 2, 3, 7], 13)
   \<and> length [7, 7, 8, 0, 0, 0, 11, 0, 0, 0, 1, 2, 3, 7 :: byte] = length (replicate 14 (7 :: byte))
   \<and> [7, 7, 8, 0, 0, 0, 11, 0, 0, 0, 1, 2, 3, 7 :: byte] ! 1 = replicate 14 7 ! 1
   \<and> [7, 7, 8, 0, 0, 0, 11, 0, 0, 0, 1, 2, 3, 7 :: byte] ! 13 = replicate 14 7 ! 13
   \<and> (13 :: nat) = 2 + 11"
proof -
  have v: "valid_value (VArray [VBytes [1, 2, 3], VBytes []]) (Type_list (Type_byteList None) None)"
    by code_simp
  have w: "well_formed (Type_list (Type_byteList None) None)" by code_simp
  have s: "size_ssz (VArray [VBytes [1, 2, 3], VBytes []]) (Type_list (Type_byteList None) None)
      = Inr 11"
    by code_simp
  have r: "serialize_low (VArray [VBytes [1, 2, 3], VBytes []])
      (Type_list (Type_byteList None) None) (replicate 14 7) 2
      = Inr ([7, 7, 8, 0, 0, 0, 11, 0, 0, 0, 1, 2, 3, 7], 13)"
    by code_simp
  note f = serialize_low_frame [OF v w s, of "replicate 14 7" 2, unfolded r buffer_of.simps]
  from f have len: "length [7, 7, 8, 0, 0, 0, 11, 0, 0, 0, 1, 2, 3, 7 :: byte]
      = length (replicate 14 (7 :: byte))"
    by (rule conjunct1)
  from f have all: "\<And>i. i < length (replicate 14 (7 :: byte)) \<Longrightarrow> i < 2 \<or> 2 + 11 \<le> i \<Longrightarrow>
      [7, 7, 8, 0, 0, 0, 11, 0, 0, 0, 1, 2, 3, 7 :: byte] ! i = replicate 14 7 ! i"
    by blast
  from f have idx: "\<And>output' index.
      Inr ([7, 7, 8, 0, 0, 0, 11, 0, 0, 0, 1, 2, 3, 7 :: byte], 13 :: nat) = Inr (output', index)
      \<Longrightarrow> index = 2 + 11"
    by blast
  have b1: "[7, 7, 8, 0, 0, 0, 11, 0, 0, 0, 1, 2, 3, 7 :: byte] ! 1 = replicate 14 7 ! 1"
    by (rule all) simp_all
  have b13: "[7, 7, 8, 0, 0, 0, 11, 0, 0, 0, 1, 2, 3, 7 :: byte] ! 13 = replicate 14 7 ! 13"
    by (rule all) simp_all
  have i13: "(13 :: nat) = 2 + 11" by (rule idx) (rule refl)
  from r len b1 b13 i13 show ?thesis by (intro conjI)
qed

section \<open>The offset table\<close>

lemma le_digits_sum:
  "0 \<le> (v :: int) \<Longrightarrow>
   sum_list (map (\<lambda>i. (v div 256 ^ i mod 256) * 256 ^ i) [0..<k]) = v mod 256 ^ k"
proof (induction k)
  case 0
  show ?case by simp
next
  case (Suc k)
  have "v mod (256 ^ k * 256) = 256 ^ k * (v div 256 ^ k mod 256) + v mod 256 ^ k"
    by (rule zmod_zmult2_eq) simp
  with Suc show ?case by (simp add: mult.commute)
qed

lemma uint_byte_of_int: "uint (word_of_int x :: byte) = x mod 256"
  by (simp add: uint_word_of_int take_bit_eq_mod)

lemma readUIntLE_le_bytes:
  assumes "0 \<le> v" and "v < 256 ^ k" and "length pre = p"
  shows "readUIntLE (pre @ le_bytes k v @ post) p k = v"
proof -
  have eq: "map (\<lambda>i. uint ((pre @ le_bytes k v @ post) ! (p + i)) * 256 ^ i) [0..<k]
        = map (\<lambda>i. (v div 256 ^ i mod 256) * 256 ^ i) [0..<k]"
  proof (rule map_cong [OF refl])
    fix i assume "i \<in> set [0..<k]"
    then have i: "i < k" by simp
    then have "(pre @ le_bytes k v @ post) ! (p + i) = le_bytes k v ! i"
      using assms(3) by (simp add: nth_append)
    also have "\<dots> = word_of_int (v div 256 ^ i)"
      using i by (simp add: le_bytes_eq_map)
    finally show "uint ((pre @ le_bytes k v @ post) ! (p + i)) * 256 ^ i
        = (v div 256 ^ i mod 256) * 256 ^ i"
      by (simp add: uint_byte_of_int)
  qed
  show ?thesis unfolding readUIntLE_def eq using assms(1,2) by (simp add: le_digits_sum)
qed

lemma writeUIntLE_read:
  assumes "writeUIntLE b v p BYTES_PER_LENGTH_PREFIX = Inr b'"
  shows "readUIntLE b' p BYTES_PER_LENGTH_PREFIX = v" and "p + 4 \<le> length b'"
proof -
  from assms have c: "0 \<le> v" "v < 256 ^ 4" "p + 4 \<le> length b"
    and b': "b' = take p b @ le_bytes 4 v @ drop (p + 4) b"
    by (auto simp: writeUIntLE_def BYTES_PER_LENGTH_PREFIX_def split: if_splits)
  from c(3) have "length (take p b) = p" by simp
  from readUIntLE_le_bytes [OF c(1,2) this] b'
  show "readUIntLE b' p BYTES_PER_LENGTH_PREFIX = v"
    by (simp add: BYTES_PER_LENGTH_PREFIX_def)
  from c(3) b' show "p + 4 \<le> length b'" by simp
qed

lemma readUIntLE_unchanged:
  assumes "unchanged_except S a b" and "\<And>i. p \<le> i \<Longrightarrow> i < p + k \<Longrightarrow> i \<notin> S"
    and "p + k \<le> length a"
  shows "readUIntLE b p k = readUIntLE a p k"
proof -
  have eq: "map (\<lambda>i. uint (b ! (p + i)) * 256 ^ i) [0..<k]
        = map (\<lambda>i. uint (a ! (p + i)) * 256 ^ i) [0..<k]"
  proof (rule map_cong [OF refl])
    fix i assume "i \<in> set [0..<k]"
    then have "p + i < length a" "p + i \<notin> S" using assms(2,3) by auto
    with assms(1) have "b ! (p + i) = a ! (p + i)" by (simp add: unchanged_except_def)
    then show "uint (b ! (p + i)) * 256 ^ i = uint (a ! (p + i)) * 256 ^ i" by simp
  qed
  show ?thesis unfolding readUIntLE_def eq ..
qed

lemma array_offsets_loop:
  assumes "\<And>v out st. v \<in> set vs \<Longrightarrow>
             run_ok {st..<st + sz v} out (st + sz v) (serialize_low v et out st)"
    and "serializeArray_variable vs et out start fi cur = Inr (out', idx)"
    and "fi + 4 * length vs \<le> cur"
  shows "sorted (array_offsets out' fi (length vs))
         \<and> (\<forall>x\<in>set (array_offsets out' fi (length vs)). int cur - int start \<le> x)
         \<and> (vs \<noteq> [] \<longrightarrow> hd (array_offsets out' fi (length vs)) = int cur - int start)"
  using assms
proof (induction vs arbitrary: out fi cur)
  case Nil
  show ?case by simp
next
  case (Cons v vs)
  have el: "run_ok {cur..<cur + sz v} out (cur + sz v) (serialize_low v et out cur)"
    using Cons.prems(1) by simp
  have rest_el: "\<And>v out st. v \<in> set vs \<Longrightarrow>
             run_ok {st..<st + sz v} out (st + sz v) (serialize_low v et out st)"
    using Cons.prems(1) by simp
  from Cons.prems(2) obtain out1 next1 where
    o1: "serialize_low v et out cur = Inr (out1, next1)"
    by (auto split: sum.splits)
  with el have n1: "next1 = cur + sz v" by simp
  from Cons.prems(2) o1 obtain out2 where
    o2: "writeUIntLE out1 (int cur - int start) fi BYTES_PER_LENGTH_PREFIX = Inr out2"
    by (auto split: sum.splits)
  from Cons.prems(2) o1 o2 have
    rest: "serializeArray_variable vs et out2 start (fi + 4) next1 = Inr (out', idx)"
    by (simp add: BYTES_PER_LENGTH_PREFIX_def)
  have "run_ok ({fi + 4..<fi + 4 + 4 * length vs} \<union> {next1..<next1 + sum_list (map sz vs)})
      out2 (next1 + sum_list (map sz vs))
      (serializeArray_variable vs et out2 start (fi + 4) next1)"
    by (rule serializeArray_variable_ok) (rule rest_el)
  with rest have un: "unchanged_except
      ({fi + 4..<fi + 4 + 4 * length vs} \<union> {next1..<next1 + sum_list (map sz vs)}) out2 out'"
    by simp
  have "readUIntLE out' fi 4 = readUIntLE out2 fi 4"
    using un
  proof (rule readUIntLE_unchanged)
    fix i assume "fi \<le> i" "i < fi + 4"
    with Cons.prems(3) n1
    show "i \<notin> {fi + 4..<fi + 4 + 4 * length vs} \<union> {next1..<next1 + sum_list (map sz vs)}"
      by auto
  next
    show "fi + 4 \<le> length out2" using writeUIntLE_read(2) [OF o2] .
  qed
  with writeUIntLE_read(1) [OF o2] have first: "readUIntLE out' fi 4 = int cur - int start"
    by (simp add: BYTES_PER_LENGTH_PREFIX_def)
  have "fi + 4 + 4 * length vs \<le> next1" using Cons.prems(3) n1 by simp
  from Cons.IH [OF rest_el rest this]
  have ih: "sorted (array_offsets out' (fi + 4) (length vs))"
    "\<forall>x\<in>set (array_offsets out' (fi + 4) (length vs)). int next1 - int start \<le> x"
    by blast+
  from ih(2) n1 have ge: "\<forall>x\<in>set (array_offsets out' (fi + 4) (length vs)).
      int cur - int start \<le> x"
    by auto
  from first ih(1) ge show ?case by (simp add: BYTES_PER_LENGTH_PREFIX_def)
qed

lemma object_offsets_loop:
  assumes "\<And>f out st. f \<in> set fs \<Longrightarrow>
             \<exists>fv. map_of fvs (fst f) = Some fv
               \<and> run_ok {st..<st + size_of fv (snd f)} out (st + size_of fv (snd f))
                    (serialize_low fv (snd f) out st)"
    and "serializeObject_loop fvs fs out start fi cur = Inr (out', idx)"
    and "fi + sum_list (map field_fixed fs) \<le> cur"
  shows "sorted (object_offsets out' fs fi)
         \<and> (\<forall>x\<in>set (object_offsets out' fs fi). int cur - int start \<le> x)
         \<and> (list_ex (\<lambda>f. isVariableSizeType (snd f)) fs \<longrightarrow>
              object_offsets out' fs fi \<noteq> []
              \<and> hd (object_offsets out' fs fi) = int cur - int start)"
  using assms
proof (induction fs arbitrary: out fi cur)
  case Nil
  show ?case by simp
next
  case (Cons f fs)
  obtain name T where f: "f = (name, T)" by (cases f)
  have rest_el: "\<And>f out st. f \<in> set fs \<Longrightarrow>
             \<exists>fv. map_of fvs (fst f) = Some fv
               \<and> run_ok {st..<st + size_of fv (snd f)} out (st + size_of fv (snd f))
                    (serialize_low fv (snd f) out st)"
    using Cons.prems(1) by simp
  have ex: "\<exists>fv. map_of fvs name = Some fv
      \<and> run_ok {st..<st + size_of fv T} out (st + size_of fv T)
           (serialize_low fv T out st)" for out st
    using Cons.prems(1) [of f st out] by (simp add: f)
  from ex [of 0 "[]"] obtain fv where fv: "map_of fvs name = Some fv" by blast
  have el: "run_ok {st..<st + size_of fv T} out (st + size_of fv T)
      (serialize_low fv T out st)" for out st
  proof -
    from ex [of st out] obtain fv' where "map_of fvs name = Some fv'"
      and r: "run_ok {st..<st + size_of fv' T} out (st + size_of fv' T)
           (serialize_low fv' T out st)" by blast
    with fv have "fv' = fv" by simp
    with r show ?thesis by simp
  qed
  show ?case
  proof (cases "isVariableSizeType T")
    case True
    then have ff: "field_fixed f = 4" by (simp add: f field_fixed_def)
    from Cons.prems(2) True fv obtain out1 next1 where
      o1: "serialize_low fv T out cur = Inr (out1, next1)"
      by (auto simp: f split: sum.splits)
    with el [of cur out] have n1: "next1 = cur + size_of fv T" by simp
    from Cons.prems(2) True fv o1 obtain out2 where
      o2: "writeUIntLE out1 (int cur - int start) fi BYTES_PER_LENGTH_PREFIX = Inr out2"
      by (auto simp: f split: sum.splits)
    from Cons.prems(2) True fv o1 o2 have
      rest: "serializeObject_loop fvs fs out2 start (fi + 4) next1 = Inr (out', idx)"
      by (simp add: f BYTES_PER_LENGTH_PREFIX_def)
    have "run_ok ({fi + 4..<fi + 4 + sum_list (map field_fixed fs)}
          \<union> {next1..<next1 + sum_list (map (field_var fvs) fs)})
        out2 (next1 + sum_list (map (field_var fvs) fs))
        (serializeObject_loop fvs fs out2 start (fi + 4) next1)"
      by (rule serializeObject_loop_ok) (rule rest_el)
    with rest have un: "unchanged_except
        ({fi + 4..<fi + 4 + sum_list (map field_fixed fs)}
          \<union> {next1..<next1 + sum_list (map (field_var fvs) fs)}) out2 out'"
      by simp
    have "readUIntLE out' fi 4 = readUIntLE out2 fi 4"
      using un
    proof (rule readUIntLE_unchanged)
      fix i assume "fi \<le> i" "i < fi + 4"
      with Cons.prems(3) n1 ff
      show "i \<notin> {fi + 4..<fi + 4 + sum_list (map field_fixed fs)}
          \<union> {next1..<next1 + sum_list (map (field_var fvs) fs)}"
        by auto
    next
      show "fi + 4 \<le> length out2" using writeUIntLE_read(2) [OF o2] .
    qed
    with writeUIntLE_read(1) [OF o2] have first: "readUIntLE out' fi 4 = int cur - int start"
      by (simp add: BYTES_PER_LENGTH_PREFIX_def)
    have "fi + 4 + sum_list (map field_fixed fs) \<le> next1"
      using Cons.prems(3) n1 ff by simp
    from Cons.IH [OF rest_el rest this]
    have ih: "sorted (object_offsets out' fs (fi + 4))"
      "\<forall>x\<in>set (object_offsets out' fs (fi + 4)). int next1 - int start \<le> x"
      by blast+
    from ih(2) n1 have ge: "\<forall>x\<in>set (object_offsets out' fs (fi + 4)).
        int cur - int start \<le> x"
      by auto
    from first ih(1) ge True show ?thesis
      by (simp add: f BYTES_PER_LENGTH_PREFIX_def)
  next
    case False
    then have ff: "field_fixed f = fixed_of T" by (simp add: f field_fixed_def)
    from Cons.prems(2) False fv obtain out1 fi1 where
      o1: "serialize_low fv T out fi = Inr (out1, fi1)"
      by (auto simp: f split: sum.splits)
    with el [of fi out] False have n1: "fi1 = fi + fixed_of T"
      by (simp add: size_of_fixed)
    from Cons.prems(2) False fv o1 have
      rest: "serializeObject_loop fvs fs out1 start fi1 cur = Inr (out', idx)"
      by (simp add: f)
    have "fi1 + sum_list (map field_fixed fs) \<le> cur"
      using Cons.prems(3) n1 ff by simp
    from Cons.IH [OF rest_el rest this] n1 False show ?thesis
      by (simp add: f)
  qed
qed


text \<open>
  Claim C2. After the dispatcher has returned on a valid value of a well-formed
  descriptor: for a non-empty list or vector of variable-size elements, the offsets
  read back from the slots at \<open>start\<close>, \<open>start + 4\<close>, ... are non-decreasing and the
  first is \<open>4 * length value\<close>; for a container with a variable-size field, the offsets
  read back from the slots of its variable-size fields, in declared order, are
  non-decreasing and the first is the \<^verbatim>\<open>fixedLength\<close> the source computes (the fixed
  size of each fixed field plus 4 for each variable field).
\<close>

theorem offset_table_monotone:
  assumes "valid_value v T" and "well_formed T"
    and "serialize_low v T output start = Inr (output', index)"
  shows "(\<forall>vs et M L.
            v = VArray vs \<and> (T = Type_list et M \<or> T = Type_vector et L)
            \<and> isVariableSizeType et \<and> vs \<noteq> [] \<longrightarrow>
              sorted (array_offsets output' start (length vs))
              \<and> hd (array_offsets output' start (length vs)) = int (length vs * 4))
         \<and> (\<forall>fields.
              T = Type_container fields \<and> isVariableSizeType T \<longrightarrow>
                sorted (object_offsets output' fields start)
                \<and> object_offsets output' fields start \<noteq> []
                \<and> (\<exists>fl. fixedLength fields = Inr fl
                      \<and> hd (object_offsets output' fields start) = int fl))"
proof (intro conjI allI impI)
  fix vs et M L
  assume a: "v = VArray vs \<and> (T = Type_list et M \<or> T = Type_vector et L)
      \<and> isVariableSizeType et \<and> vs \<noteq> []"
  then have v: "v = VArray vs" and var: "isVariableSizeType et" and ne: "vs \<noteq> []"
    and T: "T = Type_list et M \<or> T = Type_vector et L" by blast+
  have "valid_value (VArray vs) (Type_list et M) \<or> valid_value (VArray vs) (Type_vector et L)"
    using T assms(1) v by blast
  then have "list_all (\<lambda>x. valid_value x et) vs" by (elim disjE) simp_all
  then have el: "\<And>x. x \<in> set vs \<Longrightarrow> valid_value x et" by (simp add: list_all_iff)
  have "well_formed (Type_list et M) \<or> well_formed (Type_vector et L)"
    using T assms(2) by blast
  then have wf: "well_formed et" by (elim disjE) simp_all
  have elem: "\<And>x out st. x \<in> set vs \<Longrightarrow>
      run_ok {st..<st + size_of x et} out (st + size_of x et) (serialize_low x et out st)"
    using serialize_low_ok el wf by blast
  have "serialize_low (VArray vs) (Type_list et M) output start = Inr (output', index)
      \<or> serialize_low (VArray vs) (Type_vector et L) output start = Inr (output', index)"
    using T assms(3) v by blast
  then have "serializeArray vs et output start = Inr (output', index)"
    by (elim disjE) simp_all
  with var have run:
    "serializeArray_variable vs et output start start (start + 4 * length vs)
       = Inr (output', index)"
    by (simp add: BYTES_PER_LENGTH_PREFIX_def mult.commute)
  have "start + 4 * length vs \<le> start + 4 * length vs" by simp
  from array_offsets_loop [OF elem run this] ne
  show "sorted (array_offsets output' start (length vs))"
    and "hd (array_offsets output' start (length vs)) = int (length vs * 4)"
    by simp_all
next
  fix fields
  assume a: "T = Type_container fields \<and> isVariableSizeType T"
  then have T: "T = Type_container fields" by (rule conjunct1)
  from a have "isVariableSizeType (Type_container fields)" by (elim conjE) simp
  then have var: "list_ex (\<lambda>f. isVariableSizeType (snd f)) fields" by simp
  from assms(1) T obtain fvs where v: "v = VObject fvs"
    using valid_container_shape by blast
  have el: "\<And>f. f \<in> set fields \<Longrightarrow>
      \<exists>fv. map_of fvs (fst f) = Some fv \<and> valid_value fv (snd f)"
    using valid_container_field assms(1) v T by blast
  have wf: "\<And>f. f \<in> set fields \<Longrightarrow> well_formed (snd f)"
    using assms(2) T by (simp add: list_all_iff)
  have elem: "\<And>f out st. f \<in> set fields \<Longrightarrow>
             \<exists>fv. map_of fvs (fst f) = Some fv
               \<and> run_ok {st..<st + size_of fv (snd f)} out (st + size_of fv (snd f))
                    (serialize_low fv (snd f) out st)"
    using el wf serialize_low_ok by blast
  let ?FL = "sum_list (map field_fixed fields)"
  have fl: "fixedLength fields = Inr ?FL" by (rule fixedLength_eq)
  from assms(3) T v have run:
    "serializeObject_loop fvs fields output start start (start + ?FL) = Inr (output', index)"
    by (simp add: fl)
  have "start + ?FL \<le> start + ?FL" by simp
  from object_offsets_loop [OF elem run this] var
  have "sorted (object_offsets output' fields start)"
    and "object_offsets output' fields start \<noteq> []"
    and "hd (object_offsets output' fields start) = int ?FL"
    by simp_all
  with fl show "sorted (object_offsets output' fields start)"
    and "object_offsets output' fields start \<noteq> []"
    and "\<exists>fl. fixedLength fields = Inr fl
          \<and> hd (object_offsets output' fields start) = int fl"
    by simp_all
qed

theorem offset_table_monotone_witness:
  "sorted (array_offsets [7, 8, 0, 0, 0, 12, 0, 0, 0, 1, 0, 0, 0, 2, 0, 0, 0, 3, 0, 0, 0] 1 2)
   \<and> hd (array_offsets [7, 8, 0, 0, 0, 12, 0, 0, 0, 1, 0, 0, 0, 2, 0, 0, 0, 3, 0, 0, 0] 1 2) = 8
   \<and> sorted (object_offsets [2, 1, 6, 0, 0, 0, 9, 0, 0, 0, 10, 0, 0, 0]
        [(''x'', Type_uint 2 False (Number 0)), (''y'', Type_list (Type_uint 4 False (Number 0)) None)] 0)
   \<and> fixedLength [(''x'', Type_uint 2 False (Number 0)), (''y'', Type_list (Type_uint 4 False (Number 0)) None)]
       = Inr 6
   \<and> hd (object_offsets [2, 1, 6, 0, 0, 0, 9, 0, 0, 0, 10, 0, 0, 0]
        [(''x'', Type_uint 2 False (Number 0)), (''y'', Type_list (Type_uint 4 False (Number 0)) None)] 0) = 6"
proof -
  define vs where "vs = [VArray [VUint (Number 1)], VArray [VUint (Number 2), VUint (Number 3)]]"
  define et where "et = Type_list (Type_uint 4 False (Number 0)) None"
  define b1 :: buffer
    where "b1 = [7, 8, 0, 0, 0, 12, 0, 0, 0, 1, 0, 0, 0, 2, 0, 0, 0, 3, 0, 0, 0]"
  have v1: "valid_value (VArray vs) (Type_list et None)" unfolding vs_def et_def by code_simp
  have w1: "well_formed (Type_list et None)" unfolding et_def by code_simp
  have r1: "serialize_low (VArray vs) (Type_list et None) (replicate 21 7) 1 = Inr (b1, 21)"
    unfolding vs_def et_def b1_def by code_simp
  have pre1: "VArray vs = VArray vs
      \<and> (Type_list et None = Type_list et None \<or> Type_list et None = Type_vector et 0)
      \<and> isVariableSizeType et \<and> vs \<noteq> []"
    by (simp add: et_def vs_def)
  have len: "length vs = 2" by (simp add: vs_def)
  have e8: "int (2 * 4) = 8" by simp
  note t1 = offset_table_monotone [OF v1 w1 r1, THEN conjunct1, rule_format,
      of vs et None 0, OF pre1, unfolded len e8]
  define fs where
    "fs = [(''x'', Type_uint 2 False (Number 0)), (''y'', Type_list (Type_uint 4 False (Number 0)) None)]"
  define v2 where "v2 = VObject [(''x'', VUint (Number 0x0102)),
                      (''y'', VArray [VUint (Number 9), VUint (Number 10)])]"
  define b2 :: buffer where "b2 = [2, 1, 6, 0, 0, 0, 9, 0, 0, 0, 10, 0, 0, 0]"
  have v2: "valid_value v2 (Type_container fs)" unfolding v2_def fs_def by code_simp
  have w2: "well_formed (Type_container fs)" unfolding fs_def by code_simp
  have r2: "serialize_low v2 (Type_container fs) (replicate 14 0) 0 = Inr (b2, 14)"
    unfolding v2_def fs_def b2_def by code_simp
  have var2: "isVariableSizeType (Type_container fs)" unfolding fs_def by code_simp
  have f2: "fixedLength fs = Inr 6" unfolding fs_def by code_simp
  have pre2: "Type_container fs = Type_container fs \<and> isVariableSizeType (Type_container fs)"
    using var2 by (intro conjI refl)
  note t2 = offset_table_monotone [OF v2 w2 r2, THEN conjunct2, rule_format, of fs, OF pre2]
  from t2 have s2: "sorted (object_offsets b2 fs 0)" by (rule conjunct1)
  note t2 [THEN conjunct2, THEN conjunct2]
  then obtain fl where fl: "Inr 6 = (Inr fl :: error + nat)"
    and h: "hd (object_offsets b2 fs 0) = int fl"
    unfolding f2 by (elim exE conjE)
  from fl have "fl = 6" by simp
  with h have h2: "hd (object_offsets b2 fs 0) = 6" by simp
  from t1 s2 f2 h2 show ?thesis
    unfolding b1_def b2_def fs_def by (intro conjI) (elim conjE, assumption)+
qed

section \<open>The bytes a run writes\<close>

subsection \<open>Segments of a buffer\<close>

lemma segment_append: "segment b p (m + n) = segment b p m @ segment b (p + m) n"
  by (simp add: segment_def take_add add.commute)

lemma segment_unchanged:
  assumes "unchanged_except S a b" and "\<And>i. p \<le> i \<Longrightarrow> i < p + n \<Longrightarrow> i \<notin> S"
    and "p + n \<le> length a"
  shows "segment b p n = segment a p n"
proof -
  from assms(1) have len: "length b = length a" by (simp add: unchanged_except_def)
  show ?thesis
  proof (rule nth_equalityI)
    show "length (segment b p n) = length (segment a p n)"
      by (simp add: segment_def len)
  next
    fix i assume "i < length (segment b p n)"
    then have i: "i < n" by (simp add: segment_def)
    with assms(2,3) have "p + i < length a" "p + i \<notin> S" by auto
    with assms(1) have "b ! (p + i) = a ! (p + i)" by (simp add: unchanged_except_def)
    with i assms(3) len show "segment b p n ! i = segment a p n ! i"
      by (simp add: segment_def)
  qed
qed

lemma segment_copy:
  "p + length s \<le> length t \<Longrightarrow> segment (copy s t p) p (length s) = s"
  by (simp add: copy_fits segment_def)

lemma segment_writeUIntLE:
  assumes "writeUIntLE b v p BYTES_PER_LENGTH_PREFIX = Inr b'"
  shows "segment b' p 4 = uint_le 4 v"
proof -
  from assms have c: "p + 4 \<le> length b"
    and b': "b' = take p b @ le_bytes 4 v @ drop (p + 4) b"
    by (auto simp: writeUIntLE_def BYTES_PER_LENGTH_PREFIX_def split: if_splits)
  from c have "length (take p b) = p" by simp
  then have "drop p b' = le_bytes 4 v @ drop (p + 4) b"
    unfolding b' by (metis append_eq_conv_conj)
  then show ?thesis by (simp add: segment_def uint_le_def le_bytes_eq_map)
qed

lemma segment_update: "p < length b \<Longrightarrow> segment (b[p := w]) p (Suc 0) = [w]"
  using Cons_nth_drop_Suc [of p "b[p := w]", symmetric] by (simp add: segment_def)

lemma assemble:
  assumes "unchanged_except {p..<p + n} a b" and "p + n \<le> length a"
  shows "b = take p a @ segment b p n @ drop (p + n) a"
proof -
  from assms(1) have len: "length b = length a" by (simp add: unchanged_except_def)
  have t: "take p b = take p a"
  proof (rule nth_equalityI)
    show "length (take p b) = length (take p a)" by (simp add: len)
  next
    fix i assume "i < length (take p b)"
    then have "i < p" "i < length a" using len by simp_all
    with assms(1) show "take p b ! i = take p a ! i"
      by (simp add: unchanged_except_def)
  qed
  have d: "drop (p + n) b = drop (p + n) a"
  proof (rule nth_equalityI)
    show "length (drop (p + n) b) = length (drop (p + n) a)" by (simp add: len)
  next
    fix i assume "i < length (drop (p + n) b)"
    then have "p + n + i < length a" using len by simp
    with assms(1) have "b ! (p + n + i) = a ! (p + n + i)"
      by (simp add: unchanged_except_def)
    with assms(2) len show "drop (p + n) b ! i = drop (p + n) a ! i" by simp
  qed
  have e: "drop n (drop p b) = drop (p + n) b" by (simp add: add.commute)
  have "b = take p b @ (take n (drop p b) @ drop n (drop p b))"
    by (simp only: append_take_drop_id)
  then show ?thesis unfolding segment_def e t d .
qed


subsection \<open>The length of an encoding\<close>

lemma length_uint_le [simp]: "length (uint_le n x) = n"
  by (simp add: uint_le_def)

lemma length_fixed_region: "length (fixed_region cur parts) = fixed_region_length parts"
  by (induction cur parts rule: fixed_region.induct)
     (auto simp: fixed_region_length_def BYTES_PER_LENGTH_PREFIX_def)

lemma fixed_region_all_fixed:
  "fixed_region cur (map (\<lambda>v. (False, enc v)) vs) = concat (map enc vs)"
  by (induction vs) auto

lemma variable_region_all_fixed: "variable_region (map (\<lambda>v. (False, enc v)) vs) = []"
  by (induction vs) auto

lemma variable_region_all_variable:
  "variable_region (map (\<lambda>v. (True, enc v)) vs) = concat (map enc vs)"
  by (induction vs) auto

lemma fixed_region_length_all_variable:
  "fixed_region_length (map (\<lambda>v. (True, enc v)) vs) = 4 * length vs"
  by (induction vs) (auto simp: fixed_region_length_def BYTES_PER_LENGTH_PREFIX_def)

lemma fixed_region_length_all_fixed:
  "fixed_region_length (map (\<lambda>v. (False, enc v)) vs) = sum_list (map (\<lambda>v. length (enc v)) vs)"
  by (induction vs) (auto simp: fixed_region_length_def)

lemma length_concat_map: "length (concat (map enc vs)) = sum_list (map (\<lambda>v. length (enc v)) vs)"
  by (induction vs) auto

lemma length_variable_region:
  "length (variable_region parts)
   = sum_list (map (\<lambda>p. if fst p then length (snd p) else 0) parts)"
  by (induction parts rule: variable_region.induct) auto

lemma sum_list_const: "(\<And>x. x \<in> set xs \<Longrightarrow> f x = (k :: nat)) \<Longrightarrow> sum_list (map f xs) = length xs * k"
  by (induction xs) auto

lemma length_wire_format: "valid_value v T \<Longrightarrow> length (wire_format v T) = size_of v T"
proof (induction T arbitrary: v)
  case Type_bool
  then show ?case by (cases v) (auto simp: size_of_def)
next
  case (Type_uint n u off)
  then obtain x where "v = VUint x" by (cases v) auto
  then show ?case by (simp add: size_of_def)
next
  case (Type_byteVector L)
  then show ?case by (cases v) (auto simp: size_of_def)
next
  case (Type_byteList M)
  then show ?case by (cases v) (auto simp: size_of_def)
next
  case (Type_vector T L)
  from Type_vector.prems obtain vs where v: "v = VArray vs"
    and el: "\<And>x. x \<in> set vs \<Longrightarrow> valid_value x T"
    using valid_array_shape [of v T None L] by blast
  from Type_vector.prems v have len: "length vs = L" by simp
  have IH: "\<And>x. x \<in> set vs \<Longrightarrow> length (wire_format x T) = size_of x T"
    using Type_vector.IH el by blast
  show ?case
  proof (cases "isVariableSizeType T")
    case True
    then show ?thesis
      using v size_of_array_variable(2) [OF True el, of vs L] IH
      by (simp add: layout_def length_fixed_region fixed_region_length_all_variable
          variable_region_all_variable length_concat_map cong: map_cong)
  next
    case False
    have "sum_list (map (\<lambda>v. length (wire_format v T)) vs) = length vs * fixed_of T"
      by (rule sum_list_const) (simp add: IH False size_of_fixed)
    then show ?thesis
      using False v len
      by (simp add: layout_def length_fixed_region fixed_region_length_all_fixed
          variable_region_all_fixed size_of_fixed fixed_of_vector)
  qed
next
  case (Type_list T M)
  from Type_list.prems obtain vs where v: "v = VArray vs"
    and el: "\<And>x. x \<in> set vs \<Longrightarrow> valid_value x T"
    using valid_array_shape [of v T M 0] by blast
  have IH: "\<And>x. x \<in> set vs \<Longrightarrow> length (wire_format x T) = size_of x T"
    using Type_list.IH el by blast
  show ?case
  proof (cases "isVariableSizeType T")
    case True
    then show ?thesis
      using v size_of_array_variable(1) [OF True el, of vs M] IH
      by (simp add: layout_def length_fixed_region fixed_region_length_all_variable
          variable_region_all_variable length_concat_map cong: map_cong)
  next
    case False
    have "sum_list (map (\<lambda>v. length (wire_format v T)) vs) = length vs * fixed_of T"
      by (rule sum_list_const) (simp add: IH False size_of_fixed)
    then show ?thesis
      using False v
      by (simp add: layout_def length_fixed_region fixed_region_length_all_fixed
          variable_region_all_fixed size_of_list_fixed)
  qed
next
  case (Type_container fields)
  from Type_container.prems obtain fvs where v: "v = VObject fvs"
    using valid_container_shape by blast
  have el: "\<And>f. f \<in> set fields \<Longrightarrow>
      \<exists>fv. map_of fvs (fst f) = Some fv \<and> valid_value fv (snd f)"
    using valid_container_field Type_container.prems v by blast
  have part: "(if isVariableSizeType (snd f) then BYTES_PER_LENGTH_PREFIX
               else length (case map_of fvs (fst f) of None \<Rightarrow> []
                            | Some fv \<Rightarrow> wire_format fv (snd f))) = field_fixed f
      \<and> (if isVariableSizeType (snd f)
          then length (case map_of fvs (fst f) of None \<Rightarrow> []
                       | Some fv \<Rightarrow> wire_format fv (snd f)) else 0) = field_var fvs f"
    if f: "f \<in> set fields" for f
  proof -
    from el [OF f] obtain fv where fv: "map_of fvs (fst f) = Some fv" "valid_value fv (snd f)"
      by auto
    have "snd f \<in> Basic_BNFs.snds f" by (cases f) simp
    with Type_container.IH [OF f this fv(2)] fv(1) show ?thesis
      by (simp add: field_fixed_def field_var_def BYTES_PER_LENGTH_PREFIX_def size_of_fixed)
  qed
  have "fixed_region_length (field_parts fvs fields) = sum_list (map field_fixed fields)"
    unfolding fixed_region_length_def field_parts_def map_map comp_def fst_conv snd_conv
    by (simp add: part cong: map_cong)
  moreover have "length (variable_region (field_parts fvs fields))
      = sum_list (map (field_var fvs) fields)"
    unfolding length_variable_region field_parts_def map_map comp_def fst_conv snd_conv
    by (simp add: part cong: map_cong)
  ultimately show ?case
    using v size_of_container [OF el]
    by (simp add: layout_def length_fixed_region field_parts_def [symmetric])
qed


lemma uint_le_eq: "uint_le n x = le_bytes n x"
  by (simp add: uint_le_def le_bytes_eq_map)

lemma new_BN_integer_of: "new_BN u = Inr a \<Longrightarrow> integer_of u = a"
  by (cases u) (auto split: if_splits)

lemma segment_empty [simp]: "segment b p 0 = []"
  by (simp add: segment_def)

subsection \<open>What the loops write\<close>

lemma serializeArray_fixed_content:
  assumes "\<And>v out start. v \<in> set vs \<Longrightarrow>
             run_ok {start..<start + k} out (start + k) (serialize_low v et out start)"
    and "\<And>v (out :: buffer) start out' idx. v \<in> set vs \<Longrightarrow>
             serialize_low v et out start = Inr (out', idx) \<Longrightarrow> start + k \<le> length out \<Longrightarrow>
             segment out' start k = enc v"
    and "serializeArray_fixed vs et out index = Inr (out', idx)"
    and "index + length vs * k \<le> length out"
  shows "segment out' index (length vs * k) = concat (map enc vs)"
  using assms
proof (induction vs arbitrary: out index)
  case Nil
  show ?case by simp
next
  case (Cons v vs)
  from Cons.prems(3) obtain out1 index1 where
    r1: "serialize_low v et out index = Inr (out1, index1)"
    and r2: "serializeArray_fixed vs et out1 index1 = Inr (out', idx)"
    by (auto split: sum.splits prod.splits)
  from Cons.prems(1) [of v index out] r1 have i1: "index1 = index + k"
    and u1: "unchanged_except {index..<index + k} out out1" by auto
  from u1 have len1: "length out1 = length out" by (rule unchanged_except_length)
  from Cons.prems(4) have fit1: "index + k \<le> length out" by simp
  have s1: "segment out1 index k = enc v"
    using Cons.prems(2) [of v out index out1 index1] r1 fit1 by simp
  have fit2: "index1 + length vs * k \<le> length out1" using Cons.prems(4) i1 len1 by simp
  have s2: "segment out' index1 (length vs * k) = concat (map enc vs)"
  proof (rule Cons.IH [of out1 index1])
    show "run_ok {start..<start + k} out (start + k) (serialize_low x et out start)"
      if "x \<in> set vs" for x out start using that Cons.prems(1) by simp
    show "segment out' start k = enc x"
      if "x \<in> set vs" "serialize_low x et out start = Inr (out', idx)"
        "start + k \<le> length out"
      for x and out :: buffer and start out' idx
      using that Cons.prems(2) [of x out start out' idx] by simp
    show "serializeArray_fixed vs et out1 index1 = Inr (out', idx)" by (rule r2)
    show "index1 + length vs * k \<le> length out1" by (rule fit2)
  qed
  have "run_ok {index1..<index1 + length vs * k} out1 (index1 + length vs * k)
      (serializeArray_fixed vs et out1 index1)"
    by (rule serializeArray_fixed_ok) (use Cons.prems(1) in simp)
  with r2 have u2: "unchanged_except {index1..<index1 + length vs * k} out1 out'" by simp
  have "segment out' index k = segment out1 index k"
    by (rule segment_unchanged [OF u2]) (use i1 fit1 len1 in auto)
  with s1 s2 i1 show ?case
    using segment_append [of out' index k "length vs * k"] by simp
qed

lemma serializeArray_variable_content:
  assumes "\<And>v out start. v \<in> set vs \<Longrightarrow>
             run_ok {start..<start + sz v} out (start + sz v) (serialize_low v et out start)"
    and "\<And>v (out :: buffer) start out' idx. v \<in> set vs \<Longrightarrow>
             serialize_low v et out start = Inr (out', idx) \<Longrightarrow> start + sz v \<le> length out \<Longrightarrow>
             segment out' start (sz v) = enc v"
    and "\<And>v. v \<in> set vs \<Longrightarrow> length (enc v) = sz v"
    and "serializeArray_variable vs et out start fi cur = Inr (out', idx)"
    and "start \<le> cur" and "fi + 4 * length vs \<le> cur"
    and "cur + sum_list (map sz vs) \<le> length out"
  shows "segment out' fi (4 * length vs)
           = fixed_region (cur - start) (map (\<lambda>v. (True, enc v)) vs)
       \<and> segment out' cur (sum_list (map sz vs)) = concat (map enc vs)"
  using assms
proof (induction vs arbitrary: out fi cur)
  case Nil
  show ?case by simp
next
  case (Cons v vs)
  from Cons.prems(4) obtain out1 next1 out2 where
    r1: "serialize_low v et out cur = Inr (out1, next1)"
    and w: "writeUIntLE out1 (int cur - int start) fi BYTES_PER_LENGTH_PREFIX = Inr out2"
    and r2: "serializeArray_variable vs et out2 start (fi + BYTES_PER_LENGTH_PREFIX) next1
             = Inr (out', idx)"
    by (auto split: sum.splits prod.splits)
  note r2 = r2 [unfolded BYTES_PER_LENGTH_PREFIX_def]
  from Cons.prems(1) [of v cur out] r1 have n1: "next1 = cur + sz v"
    and u1: "unchanged_except {cur..<cur + sz v} out out1" by auto
  from u1 have len1: "length out1 = length out" by (rule unchanged_except_length)
  from Cons.prems(7) have fit1: "cur + sz v \<le> length out" by simp
  have s1: "segment out1 cur (sz v) = enc v"
    using Cons.prems(2) [of v out cur out1 next1] r1 fit1 by simp
  have uw: "unchanged_except {fi..<fi + 4} out1 out2"
    using writeUIntLE_unchanged [of out1 _ fi 4 out2] w
    by (simp add: BYTES_PER_LENGTH_PREFIX_def)
  have len2: "length out2 = length out" using unchanged_except_length [OF uw] len1 by simp
  have e: "int cur - int start = int (cur - start)" using Cons.prems(5) by (rule of_nat_diff [symmetric])
  have sw: "segment out2 fi 4 = uint_le 4 (int (cur - start))"
    using segment_writeUIntLE [OF w] unfolding e .
  have "segment out2 cur (sz v) = segment out1 cur (sz v)"
    by (rule segment_unchanged [OF uw]) (use Cons.prems(6) fit1 len1 in auto)
  with s1 have s1': "segment out2 cur (sz v) = enc v" by simp
  have rec: "segment out' (fi + 4) (4 * length vs)
           = fixed_region (next1 - start) (map (\<lambda>v. (True, enc v)) vs)
       \<and> segment out' next1 (sum_list (map sz vs)) = concat (map enc vs)"
  proof (rule Cons.IH [of out2 "fi + 4" next1])
    show "run_ok {start..<start + sz x} out (start + sz x) (serialize_low x et out start)"
      if "x \<in> set vs" for x out start using that Cons.prems(1) by simp
    show "segment out' start (sz x) = enc x"
      if "x \<in> set vs" "serialize_low x et out start = Inr (out', idx)"
        "start + sz x \<le> length out"
      for x and out :: buffer and start out' idx
      using that Cons.prems(2) [of x out start out' idx] by simp
    show "length (enc x) = sz x" if "x \<in> set vs" for x using that Cons.prems(3) by simp
    show "serializeArray_variable vs et out2 start (fi + 4) next1 = Inr (out', idx)"
      by (rule r2)
    show "start \<le> next1" using Cons.prems(5) n1 by simp
    show "fi + 4 + 4 * length vs \<le> next1" using Cons.prems(6) n1 by simp
    show "next1 + sum_list (map sz vs) \<le> length out2" using Cons.prems(7) n1 len2 by simp
  qed
  have "run_ok ({fi + 4..<fi + 4 + 4 * length vs}
        \<union> {next1..<next1 + sum_list (map sz vs)}) out2
      (next1 + sum_list (map sz vs))
      (serializeArray_variable vs et out2 start (fi + 4) next1)"
    by (rule serializeArray_variable_ok) (use Cons.prems(1) in simp)
  with r2 have u2: "unchanged_except ({fi + 4..<fi + 4 + 4 * length vs}
        \<union> {next1..<next1 + sum_list (map sz vs)}) out2 out'" by simp
  have a: "segment out' fi 4 = segment out2 fi 4"
    by (rule segment_unchanged [OF u2]) (use Cons.prems(6) fit1 len2 n1 in auto)
  have b: "segment out' cur (sz v) = segment out2 cur (sz v)"
    by (rule segment_unchanged [OF u2]) (use Cons.prems(6) fit1 len2 n1 in auto)
  have l: "length (enc v) = sz v" using Cons.prems(3) by simp
  have c: "cur - start + sz v = next1 - start" using Cons.prems(5) n1 by simp
  have "segment out' fi (4 + 4 * length vs)
      = uint_le 4 (int (cur - start)) @ fixed_region (next1 - start) (map (\<lambda>v. (True, enc v)) vs)"
    unfolding segment_append using a sw rec by simp
  moreover have "segment out' cur (sz v + sum_list (map sz vs)) = enc v @ concat (map enc vs)"
    unfolding segment_append using b s1' rec n1 by simp
  ultimately show ?case
    by (simp add: BYTES_PER_LENGTH_PREFIX_def l c)
qed

lemma serializeObject_loop_content:
  assumes "\<And>f out start. f \<in> set fs \<Longrightarrow>
             \<exists>fv. map_of fvs (fst f) = Some fv
               \<and> run_ok {start..<start + size_of fv (snd f)} out (start + size_of fv (snd f))
                    (serialize_low fv (snd f) out start)"
    and "\<And>f fv (out :: buffer) start out' idx. f \<in> set fs \<Longrightarrow>
             map_of fvs (fst f) = Some fv \<Longrightarrow>
             serialize_low fv (snd f) out start = Inr (out', idx) \<Longrightarrow>
             start + size_of fv (snd f) \<le> length out \<Longrightarrow>
             segment out' start (size_of fv (snd f)) = wire_format fv (snd f)"
    and "\<And>f fv. f \<in> set fs \<Longrightarrow> map_of fvs (fst f) = Some fv \<Longrightarrow>
             length (wire_format fv (snd f)) = size_of fv (snd f)"
    and "serializeObject_loop fvs fs out start fi cur = Inr (out', idx)"
    and "start \<le> cur" and "fi + sum_list (map field_fixed fs) \<le> cur"
    and "cur + sum_list (map (field_var fvs) fs) \<le> length out"
  shows "segment out' fi (sum_list (map field_fixed fs))
           = fixed_region (cur - start) (field_parts fvs fs)
       \<and> segment out' cur (sum_list (map (field_var fvs) fs))
           = variable_region (field_parts fvs fs)"
  using assms
proof (induction fs arbitrary: out fi cur)
  case Nil
  show ?case by (simp add: field_parts_def)
next
  case (Cons f fs)
  obtain name T where f: "f = (name, T)" by (cases f)
  from Cons.prems(1) [of f 0 "[]"] obtain fv where fv: "map_of fvs name = Some fv"
    by (auto simp: f)
  have el: "run_ok {start..<start + size_of fv T} out (start + size_of fv T)
      (serialize_low fv T out start)" for out start
    using Cons.prems(1) [of f start out] fv by (auto simp: f)
  have H: "segment out' start (size_of fv T) = wire_format fv T"
    if "serialize_low fv T out start = Inr (out', idx)" "start + size_of fv T \<le> length out"
    for out :: buffer and start out' idx
    using Cons.prems(2) [of f fv out start out' idx] that fv by (simp add: f)
  have l: "length (wire_format fv T) = size_of fv T"
    using Cons.prems(3) [of f fv] fv by (simp add: f)
  have parts: "field_parts fvs (f # fs) = (isVariableSizeType T, wire_format fv T) # field_parts fvs fs"
    by (simp add: field_parts_def f fv)
  have IH: "segment out' fi' (sum_list (map field_fixed fs))
           = fixed_region (cur' - start) (field_parts fvs fs)
       \<and> segment out' cur' (sum_list (map (field_var fvs) fs))
           = variable_region (field_parts fvs fs)"
    if "serializeObject_loop fvs fs out2 start fi' cur' = Inr (out', idx)"
      "start \<le> cur'" "fi' + sum_list (map field_fixed fs) \<le> cur'"
      "cur' + sum_list (map (field_var fvs) fs) \<le> length out2"
    for out2 fi' cur'
  proof (rule Cons.IH [of out2 fi' cur'])
    show "\<exists>fv. map_of fvs (fst g) = Some fv
               \<and> run_ok {start..<start + size_of fv (snd g)} out (start + size_of fv (snd g))
                    (serialize_low fv (snd g) out start)"
      if "g \<in> set fs" for g out start using that Cons.prems(1) [of g start out] by simp
    show "segment out' start (size_of gv (snd g)) = wire_format gv (snd g)"
      if "g \<in> set fs" "map_of fvs (fst g) = Some gv"
        "serialize_low gv (snd g) out start = Inr (out', idx)"
        "start + size_of gv (snd g) \<le> length out"
      for g gv and out :: buffer and start out' idx
      using that Cons.prems(2) [of g gv out start out' idx] by simp
    show "length (wire_format gv (snd g)) = size_of gv (snd g)"
      if "g \<in> set fs" "map_of fvs (fst g) = Some gv" for g gv
      using that Cons.prems(3) [of g gv] by simp
  qed (use that in simp_all)
  have frame: "run_ok ({fi'..<fi' + sum_list (map field_fixed fs)}
                 \<union> {cur'..<cur' + sum_list (map (field_var fvs) fs)}) out2
           (cur' + sum_list (map (field_var fvs) fs))
           (serializeObject_loop fvs fs out2 start fi' cur')" for out2 fi' cur'
    by (rule serializeObject_loop_ok) (use Cons.prems(1) in simp)
  show ?case
  proof (cases "isVariableSizeType T")
    case True
    then have ff: "field_fixed f = 4" and fvar: "field_var fvs f = size_of fv T"
      by (simp_all add: f field_fixed_def field_var_def fv)
    from Cons.prems(4) True fv obtain out1 next1 out2 where
      r1: "serialize_low fv T out cur = Inr (out1, next1)"
      and w: "writeUIntLE out1 (int cur - int start) fi BYTES_PER_LENGTH_PREFIX = Inr out2"
      and r2: "serializeObject_loop fvs fs out2 start (fi + BYTES_PER_LENGTH_PREFIX) next1
               = Inr (out', idx)"
      by (auto simp: f split: sum.splits prod.splits)
    note r2 = r2 [unfolded BYTES_PER_LENGTH_PREFIX_def]
    from el [of cur out] r1 have n1: "next1 = cur + size_of fv T"
      and u1: "unchanged_except {cur..<cur + size_of fv T} out out1" by auto
    from u1 have len1: "length out1 = length out" by (rule unchanged_except_length)
    from Cons.prems(7) have fit1: "cur + size_of fv T \<le> length out" by (simp add: fvar)
    have s1: "segment out1 cur (size_of fv T) = wire_format fv T"
      using H [of out cur out1 next1] r1 fit1 by simp
    have uw: "unchanged_except {fi..<fi + 4} out1 out2"
      using writeUIntLE_unchanged [of out1 _ fi 4 out2] w
      by (simp add: BYTES_PER_LENGTH_PREFIX_def)
    have len2: "length out2 = length out" using unchanged_except_length [OF uw] len1 by simp
    have e: "int cur - int start = int (cur - start)" using Cons.prems(5) by (rule of_nat_diff [symmetric])
    have sw: "segment out2 fi 4 = uint_le 4 (int (cur - start))"
      using segment_writeUIntLE [OF w] unfolding e .
    have "segment out2 cur (size_of fv T) = segment out1 cur (size_of fv T)"
      by (rule segment_unchanged [OF uw]) (use Cons.prems(6) fit1 len1 ff in auto)
    with s1 have s1': "segment out2 cur (size_of fv T) = wire_format fv T" by simp
    have rec: "segment out' (fi + 4) (sum_list (map field_fixed fs))
           = fixed_region (next1 - start) (field_parts fvs fs)
       \<and> segment out' next1 (sum_list (map (field_var fvs) fs))
           = variable_region (field_parts fvs fs)"
      by (rule IH [OF r2]) (use Cons.prems(5,6,7) n1 len2 ff fvar in simp_all)
    from frame [of "fi + 4" next1 out2] r2
    have u2: "unchanged_except ({fi + 4..<fi + 4 + sum_list (map field_fixed fs)}
          \<union> {next1..<next1 + sum_list (map (field_var fvs) fs)}) out2 out'" by simp
    have a: "segment out' fi 4 = segment out2 fi 4"
      by (rule segment_unchanged [OF u2]) (use Cons.prems(6) fit1 len2 n1 ff in auto)
    have b: "segment out' cur (size_of fv T) = segment out2 cur (size_of fv T)"
      by (rule segment_unchanged [OF u2]) (use Cons.prems(6) fit1 len2 n1 ff in auto)
    have c: "cur - start + size_of fv T = next1 - start" using Cons.prems(5) n1 by simp
    have "segment out' fi (4 + sum_list (map field_fixed fs))
        = uint_le 4 (int (cur - start)) @ fixed_region (next1 - start) (field_parts fvs fs)"
      unfolding segment_append using a sw rec by simp
    moreover have "segment out' cur (size_of fv T + sum_list (map (field_var fvs) fs))
        = wire_format fv T @ variable_region (field_parts fvs fs)"
      unfolding segment_append using b s1' rec n1 by simp
    ultimately show ?thesis
      by (simp add: parts True ff fvar BYTES_PER_LENGTH_PREFIX_def l c)
  next
    case False
    then have ff: "field_fixed f = size_of fv T" and fvar: "field_var fvs f = 0"
      by (simp_all add: f field_fixed_def field_var_def size_of_fixed)
    from Cons.prems(4) False fv obtain out1 fi1 where
      r1: "serialize_low fv T out fi = Inr (out1, fi1)"
      and r2: "serializeObject_loop fvs fs out1 start fi1 cur = Inr (out', idx)"
      by (auto simp: f split: sum.splits prod.splits)
    from el [of fi out] r1 have n1: "fi1 = fi + size_of fv T"
      and u1: "unchanged_except {fi..<fi + size_of fv T} out out1" by auto
    from u1 have len1: "length out1 = length out" by (rule unchanged_except_length)
    from Cons.prems(6,7) have fit1: "fi + size_of fv T \<le> length out" by (simp add: ff)
    have s1: "segment out1 fi (size_of fv T) = wire_format fv T"
      using H [of out fi out1 fi1] r1 fit1 by simp
    have rec: "segment out' fi1 (sum_list (map field_fixed fs))
           = fixed_region (cur - start) (field_parts fvs fs)
       \<and> segment out' cur (sum_list (map (field_var fvs) fs))
           = variable_region (field_parts fvs fs)"
      by (rule IH [OF r2]) (use Cons.prems(5,6,7) n1 len1 ff fvar in simp_all)
    from frame [of fi1 cur out1] r2
    have u2: "unchanged_except ({fi1..<fi1 + sum_list (map field_fixed fs)}
          \<union> {cur..<cur + sum_list (map (field_var fvs) fs)}) out1 out'" by simp
    have a: "segment out' fi (size_of fv T) = segment out1 fi (size_of fv T)"
      by (rule segment_unchanged [OF u2]) (use Cons.prems(6) fit1 len1 n1 ff in auto)
    have "segment out' fi (size_of fv T + sum_list (map field_fixed fs))
        = wire_format fv T @ fixed_region (cur - start) (field_parts fvs fs)"
      unfolding segment_append using a s1 rec n1 by simp
    with rec show ?thesis
      by (simp add: parts False ff fvar)
  qed
qed


lemma field_parts_lengths:
  assumes "\<And>f. f \<in> set fields \<Longrightarrow>
             \<exists>fv. map_of fvs (fst f) = Some fv \<and> valid_value fv (snd f)"
  shows "fixed_region_length (field_parts fvs fields) = sum_list (map field_fixed fields)"
    and "length (variable_region (field_parts fvs fields))
         = sum_list (map (field_var fvs) fields)"
proof -
  have part: "(if isVariableSizeType (snd f) then BYTES_PER_LENGTH_PREFIX
               else length (case map_of fvs (fst f) of None \<Rightarrow> []
                            | Some fv \<Rightarrow> wire_format fv (snd f))) = field_fixed f
      \<and> (if isVariableSizeType (snd f)
          then length (case map_of fvs (fst f) of None \<Rightarrow> []
                       | Some fv \<Rightarrow> wire_format fv (snd f)) else 0) = field_var fvs f"
    if f: "f \<in> set fields" for f
  proof -
    from assms [OF f] obtain fv where fv: "map_of fvs (fst f) = Some fv" "valid_value fv (snd f)"
      by auto
    with length_wire_format [OF fv(2)] show ?thesis
      by (simp add: field_fixed_def field_var_def BYTES_PER_LENGTH_PREFIX_def size_of_fixed)
  qed
  show "fixed_region_length (field_parts fvs fields) = sum_list (map field_fixed fields)"
    unfolding fixed_region_length_def field_parts_def map_map comp_def fst_conv snd_conv
    by (simp add: part cong: map_cong)
  show "length (variable_region (field_parts fvs fields))
      = sum_list (map (field_var fvs) fields)"
    unfolding length_variable_region field_parts_def map_map comp_def fst_conv snd_conv
    by (simp add: part cong: map_cong)
qed

subsection \<open>What the dispatcher writes\<close>

lemma serialize_low_content:
  "valid_value v T \<Longrightarrow> well_formed T \<Longrightarrow> encodable v T \<Longrightarrow>
   serialize_low v T out start = Inr (out', idx) \<Longrightarrow> start + size_of v T \<le> length out \<Longrightarrow>
   segment out' start (size_of v T) = wire_format v T"
proof (induction T arbitrary: v out start out' idx)
  case Type_bool
  then obtain b where v: "v = VBool b" by (cases v) auto
  with Type_bool.prems(4,5) show ?case
    by (auto simp: size_of_def serializeBool_def writeUInt8_def segment_update
        split: if_splits)
next
  case (Type_uint n u off)
  then obtain x where v: "v = VUint x" by (cases v) auto
  from Type_uint.prems have n: "0 < n" by auto
  have sz: "\<And>x u. size_of (VUint x) (Type_uint n u off) = n" by (simp add: size_of_def)
  show ?case
  proof (cases "6 < n \<and> u \<and> x = Infinity")
    case True
    have "toArrayLike (256 ^ n - 1) n = Inr (le_bytes n (256 ^ n - 1))"
      using n by (intro toArrayLike_fits) auto
    with True Type_uint.prems(4) v have "out' = copy (replicate n 255) out start"
      by (auto simp: serializeUint_def alloc_def BN_of_buffer_all_ones le_bytes_all_ones)
    with True Type_uint.prems(5) v show ?thesis
      using segment_copy [of start "replicate n 255" out] by (simp add: sz)
  next
    case False
    with Type_uint.prems(3) v obtain a b where ab: "new_BN x = Inr a" "new_BN off = Inr b"
      and r: "0 \<le> a + b" "a + b < 2 ^ (8 * n)"
      by (auto split: sum.splits)
    from r n have "toArrayLike (a + b) n = Inr (le_bytes n (a + b))"
      by (intro toArrayLike_fits) (auto simp: pow256)
    with False ab Type_uint.prems(4) v have "out' = copy (le_bytes n (a + b)) out start"
      by (auto simp: serializeUint_def)
    with False Type_uint.prems(5) v show ?thesis
      using segment_copy [of start "le_bytes n (a + b)" out]
        new_BN_integer_of [OF ab(1)] new_BN_integer_of [OF ab(2)]
      by (auto simp: sz uint_le_eq)
  qed
next
  case (Type_byteVector L)
  then obtain bs where v: "v = VBytes bs" "length bs = L" by (cases v) auto
  with Type_byteVector.prems(4,5) show ?case
    using segment_copy [of start bs out]
    by (auto simp: size_of_def serializeByteArray_def)
next
  case (Type_byteList M)
  then obtain bs where v: "v = VBytes bs" by (cases v) auto
  with Type_byteList.prems(4,5) show ?case
    using segment_copy [of start bs out]
    by (auto simp: size_of_def serializeByteArray_def)
next
  case (Type_vector T L)
  from Type_vector.prems obtain vs where v: "v = VArray vs"
    and el: "\<And>x. x \<in> set vs \<Longrightarrow> valid_value x T"
    using valid_array_shape [of v T None L] by blast
  from Type_vector.prems v have len: "length vs = L" by simp
  from Type_vector.prems have wf: "well_formed T" by simp
  from Type_vector.prems(3) v have enc: "\<And>x. x \<in> set vs \<Longrightarrow> encodable x T"
    by (simp add: list_all_iff)
  have F: "\<And>x out start. x \<in> set vs \<Longrightarrow>
      run_ok {start..<start + size_of x T} out (start + size_of x T)
        (serialize_low x T out start)"
    using serialize_low_ok el wf by blast
  have H: "\<And>x (out :: buffer) start out' idx. x \<in> set vs \<Longrightarrow>
      serialize_low x T out start = Inr (out', idx) \<Longrightarrow> start + size_of x T \<le> length out \<Longrightarrow>
      segment out' start (size_of x T) = wire_format x T"
    using Type_vector.IH el wf enc by blast
  have L: "\<And>x. x \<in> set vs \<Longrightarrow> length (wire_format x T) = size_of x T"
    using length_wire_format el by blast
  show ?case
  proof (cases "isVariableSizeType T")
    case True
    let ?S = "sum_list (map (\<lambda>x. size_of x T) vs)"
    have sz: "size_of (VArray vs) (Type_vector T L) = 4 * length vs + ?S"
      using size_of_array_variable(2) [OF True el, of vs L] v by simp
    from Type_vector.prems(4) v True
    have run: "serializeArray_variable vs T out start start (start + 4 * length vs)
        = Inr (out', idx)"
      by (simp add: BYTES_PER_LENGTH_PREFIX_def mult.commute)
    have "segment out' start (4 * length vs)
           = fixed_region (start + 4 * length vs - start) (map (\<lambda>v. (True, wire_format v T)) vs)
       \<and> segment out' (start + 4 * length vs) ?S = concat (map (\<lambda>v. wire_format v T) vs)"
      by (rule serializeArray_variable_content [OF F H L run])
         (use Type_vector.prems(5) sz v in simp_all)
    then show ?thesis
      using True v
      by (simp add: sz segment_append layout_def fixed_region_length_all_variable
          variable_region_all_variable)
  next
    case False
    have sz: "size_of (VArray vs) (Type_vector T L) = length vs * fixed_of T"
      using False len by (simp add: size_of_fixed fixed_of_vector)
    from Type_vector.prems(4) v False
    have run: "serializeArray_fixed vs T out start = Inr (out', idx)" by simp
    have "segment out' start (length vs * fixed_of T) = concat (map (\<lambda>v. wire_format v T) vs)"
      by (rule serializeArray_fixed_content [OF _ _ run])
         (use F H False size_of_fixed Type_vector.prems(5) sz v in auto)
    then show ?thesis
      using False v
      by (simp add: sz layout_def fixed_region_all_fixed variable_region_all_fixed)
  qed
next
  case (Type_list T M)
  from Type_list.prems obtain vs where v: "v = VArray vs"
    and el: "\<And>x. x \<in> set vs \<Longrightarrow> valid_value x T"
    using valid_array_shape [of v T M 0] by blast
  from Type_list.prems have wf: "well_formed T" by simp
  from Type_list.prems(3) v have enc: "\<And>x. x \<in> set vs \<Longrightarrow> encodable x T"
    by (simp add: list_all_iff)
  have F: "\<And>x out start. x \<in> set vs \<Longrightarrow>
      run_ok {start..<start + size_of x T} out (start + size_of x T)
        (serialize_low x T out start)"
    using serialize_low_ok el wf by blast
  have H: "\<And>x (out :: buffer) start out' idx. x \<in> set vs \<Longrightarrow>
      serialize_low x T out start = Inr (out', idx) \<Longrightarrow> start + size_of x T \<le> length out \<Longrightarrow>
      segment out' start (size_of x T) = wire_format x T"
    using Type_list.IH el wf enc by blast
  have L: "\<And>x. x \<in> set vs \<Longrightarrow> length (wire_format x T) = size_of x T"
    using length_wire_format el by blast
  show ?case
  proof (cases "isVariableSizeType T")
    case True
    let ?S = "sum_list (map (\<lambda>x. size_of x T) vs)"
    have sz: "size_of (VArray vs) (Type_list T M) = 4 * length vs + ?S"
      using size_of_array_variable(1) [OF True el, of vs M] v by simp
    from Type_list.prems(4) v True
    have run: "serializeArray_variable vs T out start start (start + 4 * length vs)
        = Inr (out', idx)"
      by (simp add: BYTES_PER_LENGTH_PREFIX_def mult.commute)
    have "segment out' start (4 * length vs)
           = fixed_region (start + 4 * length vs - start) (map (\<lambda>v. (True, wire_format v T)) vs)
       \<and> segment out' (start + 4 * length vs) ?S = concat (map (\<lambda>v. wire_format v T) vs)"
      by (rule serializeArray_variable_content [OF F H L run])
         (use Type_list.prems(5) sz v in simp_all)
    then show ?thesis
      using True v
      by (simp add: sz segment_append layout_def fixed_region_length_all_variable
          variable_region_all_variable)
  next
    case False
    have sz: "size_of (VArray vs) (Type_list T M) = length vs * fixed_of T"
      using False v by (simp add: size_of_list_fixed)
    from Type_list.prems(4) v False
    have run: "serializeArray_fixed vs T out start = Inr (out', idx)" by simp
    have "segment out' start (length vs * fixed_of T) = concat (map (\<lambda>v. wire_format v T) vs)"
      by (rule serializeArray_fixed_content [OF _ _ run])
         (use F H False size_of_fixed Type_list.prems(5) sz v in auto)
    then show ?thesis
      using False v
      by (simp add: sz layout_def fixed_region_all_fixed variable_region_all_fixed)
  qed
next
  case (Type_container fields)
  from Type_container.prems obtain fvs where v: "v = VObject fvs"
    using valid_container_shape by blast
  have el: "\<And>f. f \<in> set fields \<Longrightarrow>
      \<exists>fv. map_of fvs (fst f) = Some fv \<and> valid_value fv (snd f)"
    using valid_container_field Type_container.prems v by blast
  have wf: "\<And>f. f \<in> set fields \<Longrightarrow> well_formed (snd f)"
    using Type_container.prems by (simp add: list_all_iff)
  have F: "\<exists>fv. map_of fvs (fst f) = Some fv
               \<and> run_ok {start..<start + size_of fv (snd f)} out (start + size_of fv (snd f))
                    (serialize_low fv (snd f) out start)"
    if f: "f \<in> set fields" for f out start
  proof -
    from el [OF f] obtain fv where fv: "map_of fvs (fst f) = Some fv" "valid_value fv (snd f)"
      by auto
    with serialize_low_ok [OF fv(2) wf [OF f], of start out] show ?thesis by blast
  qed
  have H: "segment out' start (size_of fv (snd f)) = wire_format fv (snd f)"
    if f: "f \<in> set fields" and fv: "map_of fvs (fst f) = Some fv"
      and run: "serialize_low fv (snd f) out start = Inr (out', idx)"
      and fit: "start + size_of fv (snd f) \<le> length out"
    for f fv and out :: buffer and start out' idx
  proof -
    from el [OF f] fv have val: "valid_value fv (snd f)" by auto
    have e: "encodable fv (snd f)"
      using encodable_container_field [of fvs fields f fv] Type_container.prems(3) v f fv
      by simp
    have "snd f \<in> Basic_BNFs.snds f" by (cases f) simp
    from Type_container.IH [OF f this val wf [OF f] e run fit] show ?thesis .
  qed
  have L: "length (wire_format fv (snd f)) = size_of fv (snd f)"
    if f: "f \<in> set fields" and fv: "map_of fvs (fst f) = Some fv" for f fv
  proof -
    from el [OF f] fv have "valid_value fv (snd f)" by auto
    then show ?thesis by (rule length_wire_format)
  qed
  let ?FL = "sum_list (map field_fixed fields)"
  let ?VS = "sum_list (map (field_var fvs) fields)"
  have sz: "size_of (VObject fvs) (Type_container fields) = ?FL + ?VS"
    using size_of_container [OF el] v by simp
  from Type_container.prems(4) v
  have run: "serializeObject_loop fvs fields out start start (start + ?FL) = Inr (out', idx)"
    by (simp add: fixedLength_eq)
  have "segment out' start ?FL = fixed_region (start + ?FL - start) (field_parts fvs fields)
       \<and> segment out' (start + ?FL) ?VS = variable_region (field_parts fvs fields)"
    by (rule serializeObject_loop_content [OF F H L run])
       (use Type_container.prems(5) sz v in simp_all)
  then show ?case
    using v by (simp add: sz segment_append layout_def field_parts_def [symmetric]
        field_parts_lengths(1) [OF el])
qed

lemma serialize_low_encodes:
  assumes "valid_value v T" and "well_formed T" and "encodable v T"
    and "size_of v T < 4294967296" and "start + size_of v T \<le> length out"
  shows "serialize_low v T out start
         = Inr (take start out @ wire_format v T @ drop (start + size_of v T) out,
                start + size_of v T)"
proof -
  from serialize_low_succeeds [OF assms(1,2,3,5,4)] obtain out' where
    run: "serialize_low v T out start = Inr (out', start + size_of v T)"
    by (auto simp: succeeds_def)
  from serialize_low_ok [OF assms(1,2), of start out] run
  have u: "unchanged_except {start..<start + size_of v T} out out'" by simp
  have "segment out' start (size_of v T) = wire_format v T"
    by (rule serialize_low_content [OF assms(1,2,3) run assms(5)])
  with assemble [OF u assms(5)] have "out' = take start out @ wire_format v T
      @ drop (start + size_of v T) out" by simp
  with run show ?thesis by simp
qed


subsection \<open>The layout of a container\<close>

lemma container_field_size:
  assumes "\<And>f. f \<in> set fields \<Longrightarrow>
             \<exists>fv. map_of fvs (fst f) = Some fv \<and> valid_value fv (snd f)"
    and "f \<in> set fields" and "map_of fvs (fst f) = Some fv"
  shows "size_of fv (snd f) \<le> size_of (VObject fvs) (Type_container fields)"
proof -
  have "size_of fv (snd f) \<le> field_fixed f + field_var fvs f"
    using assms(3) by (simp add: field_fixed_def field_var_def size_of_fixed)
  also have "\<dots> \<le> sum_list (map (\<lambda>f. field_fixed f + field_var fvs f) fields)"
    using assms(2) by (rule elem_le_sum_list)
  also have "\<dots> = size_of (VObject fvs) (Type_container fields)"
    using size_of_container [OF assms(1)] sum_list_field_split [of fvs fields] by simp
  finally show ?thesis .
qed

text \<open>
  Claim C6. A valid container value whose uints can be encoded, of size \<open>n\<close> below
  \<open>2^32\<close>, written at \<open>start\<close> into a buffer that holds \<open>n\<close> bytes from there: the run
  returns \<open>start + n\<close> and the buffer with exactly the bytes \<open>[start, start + n)\<close>
  replaced, first by the fixed region, then by the variable region. The fixed region
  has the length \<^verbatim>\<open>fixedLength\<close> computes; it holds, in declared order, the bytes of each
  fixed-size field and, for each variable-size field, a 4-byte little-endian slot with
  the position of its body relative to \<open>start\<close>, the first one being the length of the
  fixed region; the variable region holds the bodies of the variable-size fields in
  declared order. The bytes of each field are those the dispatcher writes for that
  field alone into a fresh buffer of the field's size. The example of the spec:
  \<open>{x: 0x0102, y: [9, 10]}\<close> at \<open>{x: uint16, y: List<uint32>}\<close> gives
  \<open>0201 06000000 09000000 0a000000\<close>.
\<close>

theorem serializeObject_layout:
  "(valid_value (VObject fvs) (Type_container fields)
      \<and> well_formed (Type_container fields)
      \<and> encodable (VObject fvs) (Type_container fields)
      \<and> size_ssz (VObject fvs) (Type_container fields) = Inr n \<and> n < 2 ^ 32
      \<and> start + n \<le> length output \<longrightarrow>
    (\<exists>fl. fixedLength fields = Inr fl
       \<and> serializeObject fvs fields output start
           = Inr (take start output
                  @ fixed_region fl (field_parts fvs fields)
                  @ variable_region (field_parts fvs fields)
                  @ drop (start + n) output, start + n)
       \<and> length (fixed_region fl (field_parts fvs fields)) = fl
       \<and> fl + length (variable_region (field_parts fvs fields)) = n
       \<and> (\<forall>f\<in>set fields. \<forall>fv. map_of fvs (fst f) = Some fv \<longrightarrow>
             serialize_low fv (snd f) (alloc (length (wire_format fv (snd f))) 0) 0
             = Inr (wire_format fv (snd f), length (wire_format fv (snd f))))))
   \<and> serialize
         (VObject [(''x'', VUint (Number 0x0102)),
                   (''y'', VArray [VUint (Number 9), VUint (Number 10)])])
         (Simple_container ''C'' [(''x'', Simple_name ''uint16''),
                                  (''y'', Simple_list (Simple_name ''uint32''))])
       = Inr [0x02, 0x01, 0x06, 0, 0, 0, 0x09, 0, 0, 0, 0x0a, 0, 0, 0]"
proof (intro conjI impI)
  assume a: "valid_value (VObject fvs) (Type_container fields)
      \<and> well_formed (Type_container fields)
      \<and> encodable (VObject fvs) (Type_container fields)
      \<and> size_ssz (VObject fvs) (Type_container fields) = Inr n \<and> n < 2 ^ 32
      \<and> start + n \<le> length output"
  let ?v = "VObject fvs" and ?T = "Type_container fields"
  let ?parts = "field_parts fvs fields"
  let ?FL = "sum_list (map field_fixed fields)"
  from a have val: "valid_value ?v ?T" and wf: "well_formed ?T" and enc: "encodable ?v ?T"
    by blast+
  from a have "size_ssz ?v ?T = Inr n" by blast
  from this [unfolded size_defined [OF val]] have n: "n = size_of ?v ?T" by simp
  from a have small: "size_of ?v ?T < 4294967296" and fit: "start + size_of ?v ?T \<le> length output"
    unfolding n by simp_all
  have el: "\<And>f. f \<in> set fields \<Longrightarrow>
      \<exists>fv. map_of fvs (fst f) = Some fv \<and> valid_value fv (snd f)"
    using valid_container_field val by blast
  have wff: "\<And>f. f \<in> set fields \<Longrightarrow> well_formed (snd f)"
    using wf by (simp add: list_all_iff)
  have fl: "fixedLength fields = Inr ?FL" by (rule fixedLength_eq)
  have w: "wire_format ?v ?T = fixed_region ?FL ?parts @ variable_region ?parts"
    by (simp add: layout_def field_parts_def [symmetric] field_parts_lengths(1) [OF el])
  have run: "serializeObject fvs fields output start
      = Inr (take start output @ fixed_region ?FL ?parts @ variable_region ?parts
             @ drop (start + n) output, start + n)"
    using serialize_low_encodes [OF val wf enc small fit] unfolding w n by simp
  have l1: "length (fixed_region ?FL ?parts) = ?FL"
    by (simp add: length_fixed_region field_parts_lengths(1) [OF el])
  have l2: "?FL + length (variable_region ?parts) = n"
    unfolding n by (simp add: field_parts_lengths(2) [OF el] size_of_container [OF el])
  have bodies: "serialize_low fv (snd f) (alloc (length (wire_format fv (snd f))) 0) 0
             = Inr (wire_format fv (snd f), length (wire_format fv (snd f)))"
    if f: "f \<in> set fields" and fv: "map_of fvs (fst f) = Some fv" for f fv
  proof -
    from el [OF f] fv have v1: "valid_value fv (snd f)" by auto
    have e1: "encodable fv (snd f)"
      using encodable_container_field [OF enc f fv] .
    have "size_of fv (snd f) \<le> size_of ?v ?T"
      using el f fv by (rule container_field_size)
    with small have s1: "size_of fv (snd f) < 4294967296" by simp
    have len: "length (wire_format fv (snd f)) = size_of fv (snd f)"
      using v1 by (rule length_wire_format)
    have "0 + size_of fv (snd f) \<le> length (alloc (size_of fv (snd f)) (0 :: byte))"
      by (simp add: alloc_def)
    from serialize_low_encodes [OF v1 wff [OF f] e1 s1 this] len show ?thesis
      by (simp add: alloc_def)
  qed
  from fl run l1 l2 bodies
  show "\<exists>fl. fixedLength fields = Inr fl
       \<and> serializeObject fvs fields output start
           = Inr (take start output
                  @ fixed_region fl (field_parts fvs fields)
                  @ variable_region (field_parts fvs fields)
                  @ drop (start + n) output, start + n)
       \<and> length (fixed_region fl (field_parts fvs fields)) = fl
       \<and> fl + length (variable_region (field_parts fvs fields)) = n
       \<and> (\<forall>f\<in>set fields. \<forall>fv. map_of fvs (fst f) = Some fv \<longrightarrow>
             serialize_low fv (snd f) (alloc (length (wire_format fv (snd f))) 0) 0
             = Inr (wire_format fv (snd f), length (wire_format fv (snd f))))"
    by blast
next
  show "serialize
         (VObject [(''x'', VUint (Number 0x0102)),
                   (''y'', VArray [VUint (Number 9), VUint (Number 10)])])
         (Simple_container ''C'' [(''x'', Simple_name ''uint16''),
                                  (''y'', Simple_list (Simple_name ''uint32''))])
       = Inr [0x02, 0x01, 0x06, 0, 0, 0, 0x09, 0, 0, 0, 0x0a, 0, 0, 0]"
    by code_simp
qed

theorem serializeObject_layout_witness:
  "fixedLength [(''y'', Type_list (Type_uint 4 False (Number 0)) None),
                (''x'', Type_uint 2 False (Number 0))] = Inr 6
   \<and> serializeObject
        [(''x'', VUint (Number 0x0102)), (''y'', VArray [VUint (Number 9), VUint (Number 10)])]
        [(''y'', Type_list (Type_uint 4 False (Number 0)) None),
         (''x'', Type_uint 2 False (Number 0))]
        (replicate 16 7) 1
      = Inr ([7, 6, 0, 0, 0, 2, 1, 9, 0, 0, 0, 10, 0, 0, 0, 7], 15)"
proof -
  define fvs where
    "fvs = [(''x'', VUint (Number 0x0102)), (''y'', VArray [VUint (Number 9), VUint (Number 10)])]"
  define fields where
    "fields = [(''y'', Type_list (Type_uint 4 False (Number 0)) None),
               (''x'', Type_uint 2 False (Number 0))]"
  define buf :: buffer where "buf = replicate 16 7"
  have h1: "valid_value (VObject fvs) (Type_container fields)"
    unfolding fvs_def fields_def by code_simp
  have h2: "well_formed (Type_container fields)" unfolding fields_def by code_simp
  have h3: "encodable (VObject fvs) (Type_container fields)"
    unfolding fvs_def fields_def by code_simp
  have h4: "size_ssz (VObject fvs) (Type_container fields) = Inr 14"
    unfolding fvs_def fields_def by code_simp
  have h5: "(14 :: nat) < 2 ^ 32" by simp
  have h6: "1 + 14 \<le> length buf" unfolding buf_def by simp
  from h1 h2 h3 h4 h5 h6 have h: "valid_value (VObject fvs) (Type_container fields)
      \<and> well_formed (Type_container fields)
      \<and> encodable (VObject fvs) (Type_container fields)
      \<and> size_ssz (VObject fvs) (Type_container fields) = Inr 14 \<and> (14 :: nat) < 2 ^ 32
      \<and> 1 + 14 \<le> length buf"
    by (intro conjI)
  from serializeObject_layout [of fvs fields 14 1 buf, THEN conjunct1, rule_format, OF h]
  obtain fl where fl: "fixedLength fields = Inr fl"
    and run: "serializeObject fvs fields buf 1
           = Inr (take 1 buf @ fixed_region fl (field_parts fvs fields)
                  @ variable_region (field_parts fvs fields) @ drop (1 + 14) buf, 1 + 14)"
    by blast
  have fl6: "fixedLength fields = Inr 6" unfolding fields_def by code_simp
  with fl have "fl = 6" by simp
  moreover have "take 1 buf @ fixed_region 6 (field_parts fvs fields)
      @ variable_region (field_parts fvs fields) @ drop (1 + 14) buf
      = [7, 6, 0, 0, 0, 2, 1, 9, 0, 0, 0, 10, 0, 0, 0, 7]"
    unfolding fvs_def fields_def buf_def by code_simp
  ultimately have "serializeObject fvs fields buf 1
      = Inr ([7, 6, 0, 0, 0, 2, 1, 9, 0, 0, 0, 10, 0, 0, 0, 7], 15)"
    using run by simp
  with fl6 show ?thesis unfolding fvs_def fields_def buf_def by (intro conjI)
qed

end
